theory Spec2Isabelle
  imports Main "HOL-Library.Word" "HOL-Library.AList" "HOL-Library.Product_Lexorder"
begin

section \<open>The connection core of src/lib/Socket/socket.js\<close>

text \<open>
  \<^verbatim>\<open>makeSocket\<close> builds one connection: it normalises the endpoint, picks a transport,
  and defines the closures \<^verbatim>\<open>generateMessageTag\<close>, \<^verbatim>\<open>sendRawMessage\<close>, \<^verbatim>\<open>sendNode\<close>,
  \<^verbatim>\<open>awaitNextMessage\<close>, \<^verbatim>\<open>waitForMessage\<close>, \<^verbatim>\<open>query\<close>, \<^verbatim>\<open>validateConnection\<close> and
  \<^verbatim>\<open>startKeepAliveRequest\<close> over the variables it captures. The captured variables are
  the fields of the record \<open>sock\<close>, every closure takes the record and returns it
  updated, and an \<^verbatim>\<open>async\<close> closure also consumes the events that arrive while it is
  suspended.
\<close>

subsection \<open>Values\<close>

type_synonym bytes = "8 word list"

text \<open>A binary node: \<^verbatim>\<open>{ tag, attrs, content }\<close>. The attributes are an object with
  string values; an association list keeps the insertion order of its keys.\<close>

datatype binary_node =
  BinaryNode (tag: string) (attrs: "(string \<times> string) list")
    (content: "(binary_node list + bytes) option")

text \<open>The errors the code raises or passes on. \<^verbatim>\<open>new Boom('Connection Closed',
  { statusCode: DisconnectReason.connectionClosed })\<close> is \<open>ConnectionClosed\<close>; \<open>TimedOut\<close>
  is what the timeout-bounded waiter rejects with; \<open>ProtocolError code text\<close> is the codec's
  error for a node that the server flagged; \<open>TypeError\<close> is what JavaScript's \<^verbatim>\<open>in\<close> raises on
  a value that is not an object; \<open>Failure\<close> is any other error of a collaborator.\<close>

datatype error =
  ConnectionClosed | TimedOut | ProtocolError string string | TypeError | Failure string

text \<open>The JavaScript values that travel through the event emitter and the promises.\<close>

datatype jsval = Undefined | Str string | Bytes bytes | NodeV binary_node | ErrV error

fun truthy :: "jsval \<Rightarrow> bool" where
  "truthy Undefined = False"
| "truthy (Str s) = (s \<noteq> [])"
| "truthy (Bytes b) = True"
| "truthy (NodeV n) = True"
| "truthy (ErrV e) = True"

subsection \<open>Listeners, promises, the trace\<close>

text \<open>
  Every call of \<^verbatim>\<open>awaitNextMessage\<close> creates the closures \<^verbatim>\<open>onOpen\<close> and \<^verbatim>\<open>onClose\<close>, every call
  of \<^verbatim>\<open>waitForMessage\<close> the closures \<^verbatim>\<open>onRecv\<close> and \<^verbatim>\<open>onErr\<close>. A closure is named by the
  promise it settles.
\<close>

datatype callback = OnOpen nat | OnClose nat | OnRecv nat | OnErr nat

fun owner :: "callback \<Rightarrow> nat" where
  "owner (OnOpen i) = i"
| "owner (OnClose i) = i"
| "owner (OnRecv i) = i"
| "owner (OnErr i) = i"

text \<open>What the closures do to their collaborators, in the order they do it.\<close>

datatype action =
    On string callback
  | Off string callback
  | EncodeFrame bytes
  | Send bytes
  | ProcessHandshake bytes
  | Encrypt bytes
  | FinishInit
  | SetInterval nat
  | LogInfo string
  | LogTrace string
  | LogDebug string
  | LogError string

text \<open>
  The three promises of the file: the one \<^verbatim>\<open>awaitNextMessage\<close> returns, the one
  \<^verbatim>\<open>waitForMessage\<close> awaits, and the one \<^verbatim>\<open>sendRawMessage\<close> awaits, which
  \<^verbatim>\<open>awaitNextMessage\<close> chains with \<^verbatim>\<open>.catch(onClose)\<close>. \<open>timer\<close> is what is left of the
  deadline given to \<^verbatim>\<open>promiseTimeout\<close>.
\<close>

datatype pkind = NextFrame | Tagged string | Write "callback option"

record promise =
  kind :: pkind
  timer :: nat
  outcome :: "(jsval + jsval) option"

text \<open>The variables \<^verbatim>\<open>makeSocket\<close> captures, the transport's state, the promises
  created so far (a promise is named by its position), and the trace.\<close>

record sock =
  isOpen :: bool
  listeners :: "(string \<times> callback) list"
  promises :: "promise list"
  epoch :: nat
  log :: "action list"

text \<open>
  The configuration \<^verbatim>\<open>makeSocket\<close> destructures and the collaborators that are not in
  this file, as parameters. The handshake engine (\<^verbatim>\<open>noise\<close>) is stateful: its answers may
  depend on the calls made so far, so its functions take the trace.
\<close>

record env =
  connectTimeoutMs :: nat
  defaultQueryTimeoutMs :: nat
  keepAliveIntervalMs :: nat
  traceLevel :: bool
  uqTagId :: string
  mobileMode :: bool
  me :: "string option"
  clientHello :: bytes
  mobileNode :: bytes
  registrationNode :: bytes
  loginNode :: "string \<Rightarrow> bytes"
  clientFinish :: "bytes \<Rightarrow> bytes \<Rightarrow> bytes"
  decodeHandshake :: "jsval \<Rightarrow> jsval + bytes"
  encodeFrame :: "action list \<Rightarrow> bytes \<Rightarrow> bytes"
  processHandshake :: "action list \<Rightarrow> bytes \<Rightarrow> jsval + bytes"
  encrypt :: "action list \<Rightarrow> bytes \<Rightarrow> bytes"
  encodeBinaryNode :: "jsval \<Rightarrow> jsval + bytes"
  binaryNodeToString :: "jsval \<Rightarrow> string"
  mapWebSocketError :: "jsval \<Rightarrow> jsval"
  serverError :: "binary_node \<Rightarrow> (string \<times> string) option"

subsection \<open>The transport's event emitter\<close>

text \<open>
  Modelled from the spec: the transport (\<^verbatim>\<open>./Client\<close> is not under src/) offers
  subscription and unsubscription by event name. \<^verbatim>\<open>on\<close> appends a listener, \<^verbatim>\<open>off\<close> removes
  the instance added last, if there is one, and \<^verbatim>\<open>emit\<close> calls the listeners of the name
  in the order they were added.
\<close>

definition remove_last :: "'a \<Rightarrow> 'a list \<Rightarrow> 'a list" where
  "remove_last x xs = rev (remove1 x (rev xs))"

definition ws_on :: "string \<Rightarrow> callback \<Rightarrow> sock \<Rightarrow> sock" where
  "ws_on name cb s =
     s\<lparr>listeners := listeners s @ [(name, cb)], log := log s @ [On name cb]\<rparr>"

definition ws_off :: "string \<Rightarrow> callback \<Rightarrow> sock \<Rightarrow> sock" where
  "ws_off name cb s =
     s\<lparr>listeners := remove_last (name, cb) (listeners s), log := log s @ [Off name cb]\<rparr>"

subsection \<open>Promises\<close>

definition lookup :: "sock \<Rightarrow> nat \<Rightarrow> promise option" where
  "lookup s i = (if i < length (promises s) then Some (promises s ! i) else None)"

definition outcome_of :: "sock \<Rightarrow> nat \<Rightarrow> (jsval + jsval) option" where
  "outcome_of s i = (case lookup s i of None \<Rightarrow> None | Some p \<Rightarrow> outcome p)"

definition timer_of :: "sock \<Rightarrow> nat \<Rightarrow> nat" where
  "timer_of s i = (case lookup s i of None \<Rightarrow> 0 | Some p \<Rightarrow> timer p)"

definition pending :: "sock \<Rightarrow> nat \<Rightarrow> bool" where
  "pending s i = (case lookup s i of None \<Rightarrow> False | Some p \<Rightarrow> outcome p = None)"

definition new_promise :: "pkind \<Rightarrow> nat \<Rightarrow> sock \<Rightarrow> nat \<times> sock" where
  "new_promise k ms s =
     (length (promises s),
      s\<lparr>promises := promises s @ [\<lparr>kind = k, timer = ms, outcome = None\<rparr>]\<rparr>)"

text \<open>
  What runs when a promise of a wait settles:
  the \<^verbatim>\<open>.finally\<close> of \<^verbatim>\<open>awaitNextMessage\<close> (lines 136-140) and the \<^verbatim>\<open>finally\<close> block of
  \<^verbatim>\<open>waitForMessage\<close> (lines 167-171).
\<close>

definition cleanup :: "nat \<Rightarrow> pkind \<Rightarrow> sock \<Rightarrow> sock" where
  "cleanup i k s =
     (case k of
        NextFrame \<Rightarrow>
          ws_off ''error'' (OnClose i) (ws_off ''close'' (OnClose i) (ws_off ''frame'' (OnOpen i) s))
      | Tagged msgId \<Rightarrow>
          ws_off ''error'' (OnErr i)
            (ws_off ''close'' (OnErr i) (ws_off (''TAG:'' @ msgId) (OnRecv i) s))
      | Write c \<Rightarrow> s)"

text \<open>A promise settles once: \<^verbatim>\<open>resolve\<close> and \<^verbatim>\<open>reject\<close> on a settled promise do nothing.\<close>

definition finish :: "nat \<Rightarrow> jsval + jsval \<Rightarrow> sock \<Rightarrow> sock" where
  "finish i r s =
     (case lookup s i of
        None \<Rightarrow> s
      | Some p \<Rightarrow>
          if outcome p = None
          then cleanup i (kind p) (s\<lparr>promises := (promises s)[i := p\<lparr>outcome := Some r\<rparr>]\<rparr>)
          else s)"

text \<open>
  Calling a closure with the event's argument: \<^verbatim>\<open>onOpen = resolve\<close>,
  \<^verbatim>\<open>onClose = mapWebSocketError(reject)\<close>, \<^verbatim>\<open>onRecv = resolve\<close>, and
  \<^verbatim>\<open>onErr = err => reject(err || new Boom('Connection Closed', ...))\<close>.
\<close>

fun invoke :: "env \<Rightarrow> callback \<Rightarrow> jsval \<Rightarrow> sock \<Rightarrow> sock" where
  "invoke env (OnOpen i) arg s = finish i (Inr arg) s"
| "invoke env (OnClose i) arg s = finish i (Inl (mapWebSocketError env arg)) s"
| "invoke env (OnRecv i) arg s = finish i (Inr arg) s"
| "invoke env (OnErr i) arg s =
     finish i (Inl (if truthy arg then arg else ErrV ConnectionClosed)) s"

definition emit :: "env \<Rightarrow> string \<Rightarrow> jsval \<Rightarrow> sock \<Rightarrow> sock" where
  "emit env name arg s =
     fold (\<lambda>(n, cb) t. if n = name then invoke env cb arg t else t) (listeners s) s"

text \<open>Settling any promise: a rejected write runs its \<^verbatim>\<open>.catch\<close> handler, if it has one.\<close>

definition settle :: "env \<Rightarrow> nat \<Rightarrow> jsval + jsval \<Rightarrow> sock \<Rightarrow> sock" where
  "settle env i r s =
     (if pending s i
      then (case (lookup s i, r) of
              (Some p, Inl e) \<Rightarrow>
                (case kind p of
                   Write (Some cb) \<Rightarrow> invoke env cb e (finish i r s)
                 | _ \<Rightarrow> finish i r s)
            | _ \<Rightarrow> finish i r s)
      else s)"

subsection \<open>Events and time\<close>

text \<open>
  What happens while a closure is suspended: the transport emits an event, the
  transport calls back for the write of promise \<open>i\<close> (with an error when the write
  failed), or the transport opens or closes (\<^verbatim>\<open>ws.isOpen\<close>). Each event comes with the
  milliseconds since the one before it.
\<close>

datatype event = Emit string jsval | WriteDone nat "jsval option" | ReadyState bool

fun dispatch :: "env \<Rightarrow> event \<Rightarrow> sock \<Rightarrow> sock" where
  "dispatch env (Emit name arg) s = emit env name arg s"
| "dispatch env (WriteDone i None) s =
     (case lookup s i of
        Some p \<Rightarrow> (case kind p of Write c \<Rightarrow> settle env i (Inr Undefined) s | _ \<Rightarrow> s)
      | None \<Rightarrow> s)"
| "dispatch env (WriteDone i (Some e)) s =
     (case lookup s i of
        Some p \<Rightarrow> (case kind p of Write c \<Rightarrow> settle env i (Inl e) s | _ \<Rightarrow> s)
      | None \<Rightarrow> s)"
| "dispatch env (ReadyState b) s = s\<lparr>isOpen := b\<rparr>"

text \<open>
  Modelled from the spec: \<^verbatim>\<open>promiseTimeout\<close> (\<^verbatim>\<open>../Utils\<close> is not under src/) races the
  operation against the deadline and rejects with a Timeout error when the deadline
  elapses first. When \<open>dt\<close> milliseconds pass, the timers that expire fire in the
  order of their deadlines, the older promise first among equals.
\<close>

definition expired :: "nat \<Rightarrow> sock \<Rightarrow> nat list" where
  "expired dt s =
     sort_key (\<lambda>i. (timer_of s i, i))
       (filter (\<lambda>i. pending s i \<and> timer_of s i \<le> dt) [0..<length (promises s)])"

definition tick :: "nat \<Rightarrow> sock \<Rightarrow> sock" where
  "tick dt s =
     s\<lparr>promises := map (\<lambda>p. if outcome p = None then p\<lparr>timer := timer p - dt\<rparr> else p)
                      (promises s)\<rparr>"

definition advance :: "env \<Rightarrow> nat \<Rightarrow> sock \<Rightarrow> sock" where
  "advance env dt s =
     tick dt (fold (\<lambda>i. settle env i (Inl (ErrV TimedOut))) (expired dt s) s)"

definition result_of :: "sock \<Rightarrow> nat \<Rightarrow> jsval + jsval" where
  "result_of s i = (case outcome_of s i of Some r \<Rightarrow> r | None \<Rightarrow> Inl (ErrV TimedOut))"

text \<open>
  \<^verbatim>\<open>await p\<close>: the closure resumes as soon as promise \<open>i\<close> is settled, by an event or by its
  own deadline. A deadline that falls on the millisecond of an event comes first, and
  when no event is left, time passes until the deadline. The events it did not consume
  are returned, the next one with the time that is left until it. (\<open>result_of\<close> reads
  the outcome the deadline has set; a promise whose deadline has passed is settled.)
\<close>

fun await :: "env \<Rightarrow> nat \<Rightarrow> sock \<Rightarrow> (nat \<times> event) list
    \<Rightarrow> (jsval + jsval) \<times> sock \<times> (nat \<times> event) list" where
  "await env i s [] =
     (case outcome_of s i of
        Some r \<Rightarrow> (r, s, [])
      | None \<Rightarrow> (let s' = advance env (timer_of s i) s in (result_of s' i, s', [])))"
| "await env i s ((dt, e) # evs) =
     (case outcome_of s i of
        Some r \<Rightarrow> (r, s, (dt, e) # evs)
      | None \<Rightarrow>
          if timer_of s i \<le> dt
          then (let s' = advance env (timer_of s i) s
                in (result_of s' i, s', (dt - timer_of s i, e) # evs))
          else await env i (dispatch env e (advance env dt s)) evs)"

subsection \<open>The closures of makeSocket\<close>

text \<open>JavaScript's conversion of a whole number below \<open>10\<^sup>2\<^sup>1\<close> to a string, as the
  template literal of \<^verbatim>\<open>generateMessageTag\<close> does it: decimal digits, no leading zero.\<close>

fun dec :: "nat \<Rightarrow> string" where
  "dec n = (if n < 10 then [char_of (48 + n)] else dec (n div 10) @ [char_of (48 + n mod 10)])"

declare dec.simps [simp del]

text \<open>The state right after \<^verbatim>\<open>makeSocket\<close> has declared its variables (line 78:
  \<^verbatim>\<open>let epoch = 1\<close>); \<^verbatim>\<open>ws.connect()\<close> has been called and the transport is not open yet.\<close>

definition initial :: sock where
  "initial = \<lparr>isOpen = False, listeners = [], promises = [], epoch = 1, log = []\<rparr>"

text \<open>
  \<^verbatim>\<open>epoch++\<close>: the counter is a JavaScript number, a double, and \<open>js_succ x\<close> is the
  double nearest to \<open>x + 1\<close>, ties going to the even significand, for a whole number
  \<open>x\<close> that is a double. Below \<open>2\<^sup>5\<^sup>3\<close> every whole number is a double and the sum is
  exact. From \<open>2\<^sup>5\<^sup>3\<close> to \<open>2\<^sup>5\<^sup>4\<close> the doubles are the even numbers: \<open>x + 1\<close> lies half way
  between \<open>x\<close> and \<open>x + 2\<close> and goes to the one that is a multiple of 4, so
  \<open>2\<^sup>5\<^sup>3 + 1\<close> is \<open>2\<^sup>5\<^sup>3\<close> again. From \<open>2\<^sup>5\<^sup>4\<close> on the doubles are 4 or more apart and
  \<open>x + 1\<close> goes back to \<open>x\<close>. The counter starts at 1 (line 78) and nothing but
  \<^verbatim>\<open>epoch++\<close> changes it, so it counts 1, 2, 3, ... up to \<open>2\<^sup>5\<^sup>3\<close> and stays there.
\<close>

definition js_succ :: "nat \<Rightarrow> nat" where
  "js_succ x =
     (if x < 2 ^ 53 then x + 1
      else if x < 2 ^ 54 \<and> x mod 4 = 2 then x + 2
      else x)"

text \<open>Line 84: \<^verbatim>\<open>const generateMessageTag = () => `${uqTagId}${epoch++}`\<close>: the tag is made
  of the counter's value before the increment.\<close>

definition generateMessageTag :: "env \<Rightarrow> sock \<Rightarrow> string \<times> sock" where
  "generateMessageTag env s = (uqTagId env @ dec (epoch s), s\<lparr>epoch := js_succ (epoch s)\<rparr>)"

text \<open>
  Lines 88-103, up to the \<^verbatim>\<open>await\<close>: \<open>Inl\<close> is the error thrown before any promise
  exists, \<open>Inr p\<close> the promise of the write that \<^verbatim>\<open>promiseTimeout\<close> bounds by
  \<^verbatim>\<open>connectTimeoutMs\<close>. \<open>c\<close> is the handler the caller chains with \<^verbatim>\<open>.catch\<close>, if any.
\<close>

definition sendRawMessage_start :: "env \<Rightarrow> bytes \<Rightarrow> callback option \<Rightarrow> sock
    \<Rightarrow> (jsval + nat) \<times> sock" where
  "sendRawMessage_start env data c s =
     (if \<not> isOpen s then (Inl (ErrV ConnectionClosed), s)
      else (let bytes = encodeFrame env (log s) data;
                s1 = s\<lparr>log := log s @ [EncodeFrame data]\<rparr>;
                (p, s2) = new_promise (Write c) (connectTimeoutMs env) s1
            in (Inr p, s2\<lparr>log := log s2 @ [Send bytes]\<rparr>)))"

definition sendRawMessage :: "env \<Rightarrow> bytes \<Rightarrow> sock \<Rightarrow> (nat \<times> event) list
    \<Rightarrow> (jsval + jsval) \<times> sock \<times> (nat \<times> event) list" where
  "sendRawMessage env data s evs =
     (case sendRawMessage_start env data None s of
        (Inl e, s') \<Rightarrow> (Inl e, s', evs)
      | (Inr p, s') \<Rightarrow> await env p s' evs)"

text \<open>Lines 106-112. \<^verbatim>\<open>sendNode\<close> is not \<^verbatim>\<open>async\<close>: an error of the codec is thrown to
  the caller (the outer \<open>Inl\<close>), and the promise of \<^verbatim>\<open>sendRawMessage\<close> is returned as
  it is.\<close>

definition sendNode_start :: "env \<Rightarrow> jsval \<Rightarrow> sock \<Rightarrow> (jsval + (jsval + nat)) \<times> sock" where
  "sendNode_start env frame s =
     (let s1 = (if traceLevel env
                then s\<lparr>log := log s @ [LogTrace (binaryNodeToString env frame)]\<rparr> else s)
      in case encodeBinaryNode env frame of
           Inl e \<Rightarrow> (Inl e, s1)
         | Inr buff \<Rightarrow> (case sendRawMessage_start env buff None s1 of (r, s2) \<Rightarrow> (Inr r, s2)))"

definition sendNode :: "env \<Rightarrow> jsval \<Rightarrow> sock \<Rightarrow> (nat \<times> event) list
    \<Rightarrow> (jsval + jsval) \<times> sock \<times> (nat \<times> event) list" where
  "sendNode env frame s evs =
     (case sendNode_start env frame s of
        (Inl e, s') \<Rightarrow> (Inl e, s', evs)
      | (Inr (Inl e), s') \<Rightarrow> (Inl e, s', evs)
      | (Inr (Inr p), s') \<Rightarrow> await env p s' evs)"

text \<open>Lines 119-147. \<^verbatim>\<open>sendMsg\<close> is a buffer or \<^verbatim>\<open>undefined\<close>; a buffer is truthy.\<close>

definition awaitNextMessage_start :: "env \<Rightarrow> bytes option \<Rightarrow> sock \<Rightarrow> nat \<times> sock" where
  "awaitNextMessage_start env sendMsg s =
     (let (i, s1) = new_promise NextFrame (connectTimeoutMs env) s;
          s2 = ws_on ''error'' (OnClose i)
                 (ws_on ''close'' (OnClose i) (ws_on ''frame'' (OnOpen i) s1))
      in case sendMsg of
           None \<Rightarrow> (i, s2)
         | Some m \<Rightarrow>
             (case sendRawMessage_start env m (Some (OnClose i)) s2 of
                (Inl e, s3) \<Rightarrow> (i, invoke env (OnClose i) e s3)
              | (Inr p, s3) \<Rightarrow> (i, s3)))"

definition awaitNextMessage :: "env \<Rightarrow> bytes option \<Rightarrow> sock \<Rightarrow> (nat \<times> event) list
    \<Rightarrow> (jsval + jsval) \<times> sock \<times> (nat \<times> event) list" where
  "awaitNextMessage env sendMsg s evs =
     (if \<not> isOpen s then (Inl (ErrV ConnectionClosed), s, evs)
      else (let (i, s') = awaitNextMessage_start env sendMsg s in await env i s' evs))"

text \<open>Lines 150-172. \<^verbatim>\<open>timeoutMs\<close> takes its default when the caller passes
  \<^verbatim>\<open>undefined\<close>. Line 165 is \<^verbatim>\<open>ws.off('error', onErr)\<close>.\<close>

definition waitForMessage_start :: "env \<Rightarrow> string \<Rightarrow> nat option \<Rightarrow> sock \<Rightarrow> nat \<times> sock" where
  "waitForMessage_start env msgId timeoutMs s =
     (let ms = (case timeoutMs of None \<Rightarrow> defaultQueryTimeoutMs env | Some t \<Rightarrow> t);
          (i, s1) = new_promise (Tagged msgId) ms s
      in (i, ws_off ''error'' (OnErr i)
               (ws_on ''close'' (OnErr i) (ws_on (''TAG:'' @ msgId) (OnRecv i) s1))))"

definition waitForMessage :: "env \<Rightarrow> string \<Rightarrow> nat option \<Rightarrow> sock \<Rightarrow> (nat \<times> event) list
    \<Rightarrow> (jsval + jsval) \<times> sock \<times> (nat \<times> event) list" where
  "waitForMessage env msgId timeoutMs s evs =
     (let (i, s') = waitForMessage_start env msgId timeoutMs s in await env i s' evs)"

text \<open>
  Modelled from the spec: \<^verbatim>\<open>assertNodeErrorFree\<close> (\<^verbatim>\<open>../WABinary\<close> is not under src/)
  fails with a ProtocolError that carries the node's error code and text if the node
  encodes a server-side failure. Which nodes do is the codec's matter (\<open>serverError\<close>).
\<close>

definition assertNodeErrorFree :: "env \<Rightarrow> binary_node \<Rightarrow> jsval option" where
  "assertNodeErrorFree env n =
     (case serverError env n of
        None \<Rightarrow> None
      | Some (code, text) \<Rightarrow> Some (ErrV (ProtocolError code text)))"

text \<open>\<^verbatim>\<open>!node.attrs.id\<close>: the attribute is missing or the empty string.\<close>

definition no_id :: "binary_node \<Rightarrow> bool" where
  "no_id node = (case map_of (attrs node) ''id'' of None \<Rightarrow> True | Some v \<Rightarrow> v = [])"

definition set_id :: "string \<Rightarrow> binary_node \<Rightarrow> binary_node" where
  "set_id v node = BinaryNode (tag node) (AList.update ''id'' v (attrs node)) (content node)"

definition msg_id :: "binary_node \<Rightarrow> string" where
  "msg_id node = (case map_of (attrs node) ''id'' of None \<Rightarrow> [] | Some v \<Rightarrow> v)"

text \<open>
  Lines 175-190. The caller's node object is changed in place, so the node is returned
  beside the result. \<^verbatim>\<open>'tag' in result\<close> holds of a node, fails of a buffer or an error
  object, and raises a TypeError on a value that is not an object.
\<close>

definition query :: "env \<Rightarrow> binary_node \<Rightarrow> nat option \<Rightarrow> sock \<Rightarrow> (nat \<times> event) list
    \<Rightarrow> (jsval + jsval) \<times> binary_node \<times> sock \<times> (nat \<times> event) list" where
  "query env node timeoutMs s evs =
     (let (node1, s1) =
            (if no_id node
             then (let (t, s') = generateMessageTag env s in (set_id t node, s'))
             else (node, s));
          msgId = msg_id node1;
          (wait, s2) = waitForMessage_start env msgId timeoutMs s1
      in case sendNode env (NodeV node1) s2 evs of
           (Inl e, s3, evs1) \<Rightarrow> (Inl e, node1, s3, evs1)
         | (Inr u, s3, evs1) \<Rightarrow>
             (case await env wait s3 evs1 of
                (Inl e, s4, evs2) \<Rightarrow> (Inl e, node1, s4, evs2)
              | (Inr result, s4, evs2) \<Rightarrow>
                  (case result of
                     NodeV n \<Rightarrow>
                       (case assertNodeErrorFree env n of
                          Some e \<Rightarrow> (Inl e, node1, s4, evs2)
                        | None \<Rightarrow> (Inr result, node1, s4, evs2))
                   | Bytes b \<Rightarrow> (Inr result, node1, s4, evs2)
                   | ErrV x \<Rightarrow> (Inr result, node1, s4, evs2)
                   | Undefined \<Rightarrow> (Inl (ErrV TypeError), node1, s4, evs2)
                   | Str x \<Rightarrow> (Inl (ErrV TypeError), node1, s4, evs2))))"

text \<open>Lines 248-253: \<^verbatim>\<open>setInterval(() => {...}, 30000)\<close>; the handle is dropped.\<close>

definition startKeepAliveRequest :: "sock \<Rightarrow> sock" where
  "startKeepAliveRequest s = s\<lparr>log := log s @ [SetInterval 30000]\<rparr>"

text \<open>
  One run of the interval's callback (lines 250-251):
  \<^verbatim>\<open>sendNode('keepalive', { type: 'ping' }); logger.debug('Keep-alive ping sent')\<close>.
  \<^verbatim>\<open>sendNode\<close> has one parameter, so the frame is the string. An error the codec throws
  leaves the callback (\<open>Some e\<close>); the promise of the send is dropped.
\<close>

definition keepAliveTick :: "env \<Rightarrow> sock \<Rightarrow> jsval option \<times> (jsval + nat) option \<times> sock" where
  "keepAliveTick env s =
     (case sendNode_start env (Str ''keepalive'') s of
        (Inl e, s1) \<Rightarrow> (Some e, None, s1)
      | (Inr r, s1) \<Rightarrow> (None, Some r, s1\<lparr>log := log s1 @ [LogDebug ''Keep-alive ping sent'']\<rparr>))"

text \<open>
  Lines 193-231. The protobuf codec of the handshake messages and the builders of the
  client payload are parameters: \<open>clientHello\<close> is the encoded hello, \<open>decodeHandshake\<close>
  may throw on the frame it is given, \<open>clientFinish\<close> encodes the finish message.
\<close>

definition validateConnection :: "env \<Rightarrow> sock \<Rightarrow> (nat \<times> event) list
    \<Rightarrow> (jsval + jsval) \<times> sock \<times> (nat \<times> event) list" where
  "validateConnection env s evs =
     (let s0 = s\<lparr>log := log s @ [LogInfo ''connected to WA'']\<rparr>
      in case awaitNextMessage env (Some (clientHello env)) s0 evs of
           (Inl e, s1, evs1) \<Rightarrow> (Inl e, s1, evs1)
         | (Inr result, s1, evs1) \<Rightarrow>
             (case decodeHandshake env result of
                Inl e \<Rightarrow> (Inl e, s1, evs1)
              | Inr handshake \<Rightarrow>
                  (let s2 = s1\<lparr>log := log s1 @ [LogTrace ''handshake recv from WA'']\<rparr>;
                       s3 = s2\<lparr>log := log s2 @ [ProcessHandshake handshake]\<rparr>
                   in case processHandshake env (log s2) handshake of
                        Inl e \<Rightarrow> (Inl e, s3, evs1)
                      | Inr keyEnc \<Rightarrow>
                          (let (node, s4) =
                                 (if mobileMode env then (mobileNode env, s3)
                                  else (case me env of
                                          None \<Rightarrow>
                                            (registrationNode env,
                                             s3\<lparr>log := log s3 @
                                               [LogInfo ''not logged in, attempting registration...'']\<rparr>)
                                        | Some jid \<Rightarrow>
                                            (loginNode env jid,
                                             s3\<lparr>log := log s3 @ [LogInfo ''logging in...'']\<rparr>)));
                               payloadEnc = encrypt env (log s4) node;
                               s5 = s4\<lparr>log := log s4 @ [Encrypt node]\<rparr>
                           in case sendRawMessage env (clientFinish env keyEnc payloadEnc) s5 evs1 of
                                (Inl e, s6, evs2) \<Rightarrow> (Inl e, s6, evs2)
                              | (Inr u, s6, evs2) \<Rightarrow>
                                  (Inr Undefined,
                                   startKeepAliveRequest (s6\<lparr>log := log s6 @ [FinishInit]\<rparr>),
                                   evs2)))))"

subsection \<open>Choosing the transport\<close>








subsection \<open>Notions used by the properties\<close>

text \<open>The tags of \<open>N\<close> calls of \<^verbatim>\<open>generateMessageTag\<close> in a row, and the number a tag ends
  with: what is left after the session prefix, read as a decimal number.\<close>

fun generateTags :: "env \<Rightarrow> nat \<Rightarrow> sock \<Rightarrow> string list \<times> sock" where
  "generateTags env 0 s = ([], s)"
| "generateTags env (Suc n) s =
     (let (t, s1) = generateMessageTag env s; (ts, s2) = generateTags env n s1 in (t # ts, s2))"

definition undec :: "string \<Rightarrow> nat" where
  "undec cs = foldl (\<lambda>a c. 10 * a + (of_char c - 48)) 0 cs"

definition tag_counter :: "env \<Rightarrow> string \<Rightarrow> nat" where
  "tag_counter env t = undec (drop (length (uqTagId env)) t)"

text \<open>The listeners that belong to promise \<open>i\<close>, the \<^verbatim>\<open>.catch\<close> handler of a write, and
  the \<^verbatim>\<open>ws.off\<close> calls of a cleanup.\<close>

fun is_Off :: "action \<Rightarrow> bool" where
  "is_Off (Off n cb) = True"
| "is_Off a = False"

definition own :: "nat \<Rightarrow> sock \<Rightarrow> (string \<times> callback) list" where
  "own i s = filter (\<lambda>(n, cb). owner cb = i) (listeners s)"

definition catcher :: "sock \<Rightarrow> nat \<Rightarrow> callback option" where
  "catcher s j =
     (case lookup s j of
        Some p \<Rightarrow> (case kind p of Write c \<Rightarrow> c | _ \<Rightarrow> None)
      | None \<Rightarrow> None)"

fun cleanup_offs :: "nat \<Rightarrow> pkind \<Rightarrow> action list" where
  "cleanup_offs i NextFrame =
     [Off ''frame'' (OnOpen i), Off ''close'' (OnClose i), Off ''error'' (OnClose i)]"
| "cleanup_offs i (Tagged msgId) =
     [Off (''TAG:'' @ msgId) (OnRecv i), Off ''close'' (OnErr i), Off ''error'' (OnErr i)]"
| "cleanup_offs i (Write c) = []"

text \<open>A state the closures can be in: every closure that is registered as a listener
  or chained to a write was made for a promise that exists.\<close>

definition wf :: "sock \<Rightarrow> bool" where
  "wf s =
     (list_all (\<lambda>(n, cb). owner cb < length (promises s)) (listeners s) \<and>
      list_all (\<lambda>p. case kind p of Write (Some cb) \<Rightarrow> owner cb < length (promises s) | _ \<Rightarrow> True)
        (promises s))"

text \<open>
  What can happen to the state while a closure is suspended: promises settle (none of
  \<open>X\<close>), time passes (when \<open>T\<close>), the transport opens or closes. \<open>later s t\<close> is what
  every such run keeps: no promise is added or changes its kind, a settled promise
  stays as it is, no listener is added, and the trace grows by \<^verbatim>\<open>ws.off\<close> calls only.
\<close>

inductive run :: "bool \<Rightarrow> nat set \<Rightarrow> sock \<Rightarrow> sock \<Rightarrow> bool"
  for T :: bool and X :: "nat set" and s :: sock where
  run_refl: "run T X s s"
| run_finish: "run T X s t \<Longrightarrow> j \<notin> X \<Longrightarrow> run T X s (finish j r t)"
| run_tick: "run T X s t \<Longrightarrow> T \<Longrightarrow> run T X s (tick dt t)"
| run_ready: "run T X s t \<Longrightarrow> run T X s (t\<lparr>isOpen := b\<rparr>)"

definition later :: "sock \<Rightarrow> sock \<Rightarrow> bool" where
  "later s t =
     (map kind (promises t) = map kind (promises s) \<and> epoch t = epoch s \<and>
      (\<forall>i. outcome_of s i \<noteq> None \<longrightarrow> lookup t i = lookup s i) \<and>
      set (listeners t) \<subseteq> set (listeners s) \<and>
      (\<exists>offs. log t = log s @ offs \<and> list_all is_Off offs))"

subsection \<open>An example configuration\<close>

text \<open>A configuration, a connection whose transport has opened, and two endpoints, for
  the concrete runs below.\<close>

definition example_env :: env where
  "example_env =
     \<lparr>connectTimeoutMs = 20000, defaultQueryTimeoutMs = 60000, keepAliveIntervalMs = 25000,
      traceLevel = False, uqTagId = ''12.34-'', mobileMode = False, me = None,
      clientHello = [1], mobileNode = [2], registrationNode = [3], loginNode = (\<lambda>jid. [4]),
      clientFinish = (\<lambda>key payload. key @ payload),
      decodeHandshake = (\<lambda>v. case v of Bytes b \<Rightarrow> Inr b | _ \<Rightarrow> Inl (ErrV (Failure ''decode''))),
      encodeFrame = (\<lambda>l b. 0 # b),
      processHandshake = (\<lambda>l b. if b = [] then Inl (ErrV (Failure ''bad hello'')) else Inr b),
      encrypt = (\<lambda>l b. b),
      encodeBinaryNode = (\<lambda>v. case v of NodeV n \<Rightarrow> Inr [7] | _ \<Rightarrow> Inl (ErrV TypeError)),
      binaryNodeToString = (\<lambda>v. ''<node/>''),
      mapWebSocketError = (\<lambda>v. v),
      serverError = (\<lambda>n. if tag n = ''error'' then Some (''500'', ''boom'') else None)\<rparr>"

definition opened :: sock where
  "opened = initial\<lparr>isOpen := True\<rparr>"



text \<open>What \<^verbatim>\<open>sendRawMessage\<close> and \<^verbatim>\<open>sendNode\<close> add to the trace before they suspend, and
  \<open>grows s acts t\<close>: from \<open>s\<close> to \<open>t\<close> the trace grew by \<open>acts\<close> and then by \<^verbatim>\<open>ws.off\<close> calls
  only.\<close>

definition send_trace :: "env \<Rightarrow> bytes \<Rightarrow> sock \<Rightarrow> action list" where
  "send_trace env data s =
     (if isOpen s then [EncodeFrame data, Send (encodeFrame env (log s) data)] else [])"

definition trace_line :: "env \<Rightarrow> jsval \<Rightarrow> action list" where
  "trace_line env frame =
     (if traceLevel env then [LogTrace (binaryNodeToString env frame)] else [])"

definition grows :: "sock \<Rightarrow> action list \<Rightarrow> sock \<Rightarrow> bool" where
  "grows s acts t = (\<exists>offs. log t = log s @ acts @ offs \<and> list_all is_Off offs)"

text \<open>What \<^verbatim>\<open>query\<close> makes of the settled wait (lines 185-189).\<close>

definition verdict :: "env \<Rightarrow> jsval + jsval \<Rightarrow> jsval + jsval" where
  "verdict env res =
     (case res of
        Inl e \<Rightarrow> Inl e
      | Inr (NodeV n) \<Rightarrow>
          (case serverError env n of
             Some (code, text) \<Rightarrow> Inl (ErrV (ProtocolError code text))
           | None \<Rightarrow> Inr (NodeV n))
      | Inr (Bytes b) \<Rightarrow> Inr (Bytes b)
      | Inr (ErrV x) \<Rightarrow> Inr (ErrV x)
      | Inr Undefined \<Rightarrow> Inl (ErrV TypeError)
      | Inr (Str x) \<Rightarrow> Inl (ErrV TypeError))"

text \<open>A node without an identifier, for the concrete runs of \<^verbatim>\<open>query\<close>.\<close>

definition example_node :: binary_node where
  "example_node = BinaryNode ''iq'' [(''type'', ''get'')] None"


definition registers :: "nat \<Rightarrow> action list" where
  "registers i = [On ''frame'' (OnOpen i), On ''close'' (OnClose i), On ''error'' (OnClose i)]"

definition first_send :: "env \<Rightarrow> bytes option \<Rightarrow> sock \<Rightarrow> action list" where
  "first_send env sendMsg s =
     (case sendMsg of
        None \<Rightarrow> []
      | Some m \<Rightarrow>
          [EncodeFrame m, Send (encodeFrame env (log s @ registers (length (promises s))) m)])"

definition client_payload :: "env \<Rightarrow> bytes" where
  "client_payload env =
     (if mobileMode env then mobileNode env
      else (case me env of None \<Rightarrow> registrationNode env | Some jid \<Rightarrow> loginNode env jid))"

definition login_line :: "env \<Rightarrow> action list" where
  "login_line env =
     (if mobileMode env then []
      else (case me env of
              None \<Rightarrow> [LogInfo ''not logged in, attempting registration...'']
            | Some jid \<Rightarrow> [LogInfo ''logging in...'']))"



definition kind_of :: "sock \<Rightarrow> nat \<Rightarrow> pkind option" where
  "kind_of s i = map_option kind (lookup s i)"

fun completion :: "nat \<Rightarrow> nat \<Rightarrow> (nat \<times> event) list \<Rightarrow> jsval option option" where
  "completion p ms [] = None"
| "completion p ms ((dt, e) # evs) =
     (if ms \<le> dt then None
      else (case e of
              WriteDone q res \<Rightarrow> if q = p then Some res else completion p (ms - dt) evs
            | _ \<Rightarrow> completion p (ms - dt) evs))"

fun write_result :: "jsval option option \<Rightarrow> jsval + jsval" where
  "write_result None = Inl (ErrV TimedOut)"
| "write_result (Some None) = Inr Undefined"
| "write_result (Some (Some e)) = Inl e"

definition targeted :: "sock \<Rightarrow> nat \<Rightarrow> bool" where
  "targeted s p =
     ((\<exists>x \<in> set (listeners s). owner (snd x) = p) \<or>
      (\<exists>j cb. catcher s j = Some cb \<and> owner cb = p))"

definition lonely :: "sock \<Rightarrow> nat \<Rightarrow> bool" where
  "lonely s p = (pending s p \<and> kind_of s p = Some (Write None) \<and> \<not> targeted s p)"


text \<open>
  \<open>heard msgId ms evs\<close>: what the wait for the tag \<open>msgId\<close> hears within \<open>ms\<close>
  milliseconds: the value of the first \<^verbatim>\<open>TAG:\<close> event of that tag or the error of the first
  \<^verbatim>\<open>close\<close> event (Connection Closed when the event carries none), whichever comes first,
  and the Timeout error when neither comes before the deadline. An \<^verbatim>\<open>error\<close> event is
  not heard (line 165). \<open>hearing s w msgId\<close>: the promise \<open>w\<close> is such a wait, pending,
  with its two listeners registered, and no \<^verbatim>\<open>.catch\<close> handler settles it.
\<close>

fun heard :: "string \<Rightarrow> nat \<Rightarrow> (nat \<times> event) list \<Rightarrow> jsval + jsval" where
  "heard msgId ms [] = Inl (ErrV TimedOut)"
| "heard msgId ms ((dt, e) # evs) =
     (if ms \<le> dt then Inl (ErrV TimedOut)
      else (case e of
              Emit n v \<Rightarrow>
                if n = ''TAG:'' @ msgId then Inr v
                else if n = ''close'' then Inl (if truthy v then v else ErrV ConnectionClosed)
                else heard msgId (ms - dt) evs
            | _ \<Rightarrow> heard msgId (ms - dt) evs))"

definition hearing :: "sock \<Rightarrow> nat \<Rightarrow> string \<Rightarrow> bool" where
  "hearing s w msgId =
     (pending s w \<and> kind_of s w = Some (Tagged msgId) \<and>
      own w s = [(''TAG:'' @ msgId, OnRecv w), (''close'', OnErr w)] \<and>
      (\<forall>j cb. catcher s j = Some cb \<longrightarrow> owner cb \<noteq> w))"

section \<open>Properties\<close>

subsection \<open>Tags\<close>

lemma undec_snoc: "undec (cs @ [c]) = 10 * undec cs + (of_char c - 48)"
  by (simp add: undec_def)

lemma undec_dec: "undec (dec n) = n"
proof (induction n rule: dec.induct)
  case (1 n)
  show ?case
  proof (cases "n < 10")
    case True
    then show ?thesis by (subst dec.simps) (simp add: undec_def)
  next
    case False
    with 1 have "undec (dec (n div 10)) = n div 10" by simp
    moreover have "of_char (char_of (48 + n mod 10) :: char) = 48 + n mod 10"
    proof -
      have "48 + n mod 10 < 256" by simp
      then show ?thesis by simp
    qed
    ultimately show ?thesis using False
      by (subst dec.simps) (simp add: undec_snoc)
  qed
qed

lemma tag_counter_tag: "tag_counter env (uqTagId env @ dec k) = k"
  by (simp add: tag_counter_def undec_dec)

lemma js_succ_below: "x < 2 ^ 53 \<Longrightarrow> js_succ x = x + 1"
  by (simp add: js_succ_def)

lemma js_succ_top: "js_succ (2 ^ 53) = 2 ^ 53"
  by (simp add: js_succ_def)

lemma js_succ_min: "x \<le> 2 ^ 53 \<Longrightarrow> js_succ x = min (x + 1) (2 ^ 53)"
proof (cases "x < 2 ^ 53")
  case True
  then show ?thesis by (simp add: js_succ_below)
next
  case False
  assume "x \<le> 2 ^ 53"
  with False have x: "x = 2 ^ 53" by simp
  show ?thesis unfolding x js_succ_top by simp
qed

lemma generateTags_from:
  assumes "epoch s \<le> 2 ^ 53"
  shows "generateTags env N s =
     (map (\<lambda>i. uqTagId env @ dec (min (epoch s + i) (2 ^ 53))) [0..<N],
      s\<lparr>epoch := min (epoch s + N) (2 ^ 53)\<rparr>)"
  using assms
proof (induction N arbitrary: s)
  case 0
  then show ?case by (simp add: min_absorb1)
next
  case (Suc N)
  define M :: nat where "M = 2 ^ 53"
  define s1 where "s1 = s\<lparr>epoch := js_succ (epoch s)\<rparr>"
  have e: "epoch s \<le> M" using Suc.prems by (simp add: M_def)
  have "js_succ (epoch s) = min (epoch s + 1) M"
    unfolding M_def using Suc.prems by (rule js_succ_min)
  then have e1: "epoch s1 = min (Suc (epoch s)) M"
    by (simp add: s1_def)
  then have "epoch s1 \<le> 2 ^ 53" by (simp add: M_def)
  then have ih: "generateTags env N s1 =
     (map (\<lambda>i. uqTagId env @ dec (min (epoch s1 + i) M)) [0..<N],
      s1\<lparr>epoch := min (epoch s1 + N) M\<rparr>)"
    unfolding M_def by (rule Suc.IH)
  have m: "min (epoch s1 + i) M = min (epoch s + Suc i) M" for i
    unfolding e1 by (simp add: min_def)
  have l: "[0..<Suc N] = 0 # map Suc [0..<N]"
    by (simp add: upt_conv_Cons map_Suc_upt del: upt_Suc)
  have "generateTags env (Suc N) s =
      ((uqTagId env @ dec (epoch s)) # map (\<lambda>i. uqTagId env @ dec (min (epoch s1 + i) M)) [0..<N],
       s1\<lparr>epoch := min (epoch s1 + N) M\<rparr>)"
    by (simp add: generateMessageTag_def s1_def [symmetric] ih)
  also have "\<dots> =
      (map (\<lambda>i. uqTagId env @ dec (min (epoch s + i) M)) [0..<Suc N],
       s\<lparr>epoch := min (epoch s + Suc N) M\<rparr>)"
    unfolding l m using e by (simp add: o_def s1_def min_absorb1)
  finally show ?case unfolding M_def .
qed

lemma generateTags_initial:
  "fst (generateTags env N initial) = map (\<lambda>i. uqTagId env @ dec (min (Suc i) (2 ^ 53))) [0..<N]"
  "epoch (snd (generateTags env N initial)) = min (Suc N) (2 ^ 53)"
proof -
  have e: "epoch initial \<le> 2 ^ 53" "epoch initial = 1" by (simp_all add: initial_def)
  show "fst (generateTags env N initial)
      = map (\<lambda>i. uqTagId env @ dec (min (Suc i) (2 ^ 53))) [0..<N]"
    unfolding generateTags_from [OF e(1)] e(2) by simp
  show "epoch (snd (generateTags env N initial)) = min (Suc N) (2 ^ 53)"
    unfolding generateTags_from [OF e(1)] e(2) by simp
qed

text \<open>
  C3, as stated, fails: the counter does not increase for ever. Of \<open>2\<^sup>5\<^sup>3 + 1\<close> tags
  generated in a row the last two are the same, the prefix followed by \<open>2\<^sup>5\<^sup>3\<close>, because
  \<^verbatim>\<open>epoch++\<close> leaves a counter of \<open>2\<^sup>5\<^sup>3\<close> as it is: a call at that counter returns the
  same tag as the call after it.
\<close>

theorem generateMessageTag_repeats:
  "fst (generateTags example_env (2 ^ 53 + 1) initial) ! (2 ^ 53 - 1)
     = uqTagId example_env @ dec (2 ^ 53)
   \<and> fst (generateTags example_env (2 ^ 53 + 1) initial) ! (2 ^ 53)
     = uqTagId example_env @ dec (2 ^ 53)
   \<and> \<not> distinct (fst (generateTags example_env (2 ^ 53 + 1) initial))
   \<and> epoch (snd (generateMessageTag example_env (initial\<lparr>epoch := 2 ^ 53\<rparr>))) = 2 ^ 53
   \<and> fst (generateMessageTag example_env (snd (generateMessageTag example_env
            (initial\<lparr>epoch := 2 ^ 53\<rparr>))))
     = fst (generateMessageTag example_env (initial\<lparr>epoch := 2 ^ 53\<rparr>))"
proof -
  define M :: nat where "M = 2 ^ 53"
  define ts where "ts = fst (generateTags example_env (M + 1) initial)"
  have M: "0 < M" by (simp add: M_def)
  have ts: "ts = map (\<lambda>i. uqTagId example_env @ dec (min (Suc i) M)) [0..<M + 1]"
    unfolding ts_def M_def by (rule generateTags_initial)
  have len: "length ts = M + 1" unfolding ts by simp
  have "[0..<M + 1] ! (M - 1) = 0 + (M - 1)" by (rule nth_upt) simp
  moreover have "ts ! (M - 1)
      = uqTagId example_env @ dec (min (Suc ([0..<M + 1] ! (M - 1))) M)"
    unfolding ts by (rule nth_map) simp
  ultimately have a: "ts ! (M - 1) = uqTagId example_env @ dec M"
    using M by simp
  have "[0..<M + 1] ! M = 0 + M" by (rule nth_upt) simp
  moreover have "ts ! M = uqTagId example_env @ dec (min (Suc ([0..<M + 1] ! M)) M)"
    unfolding ts by (rule nth_map) simp
  ultimately have b: "ts ! M = uqTagId example_env @ dec M"
    by simp
  have "M - 1 < length ts" "M < length ts" "M - 1 \<noteq> M" "ts ! (M - 1) = ts ! M"
    using M len a b by simp_all
  then have c: "\<not> distinct ts" by (metis nth_eq_iff_index_eq)
  have d: "epoch (snd (generateMessageTag example_env (initial\<lparr>epoch := M\<rparr>))) = M"
    by (simp add: generateMessageTag_def M_def js_succ_def)
  have e: "fst (generateMessageTag example_env (snd (generateMessageTag example_env
            (initial\<lparr>epoch := M\<rparr>))))
     = fst (generateMessageTag example_env (initial\<lparr>epoch := M\<rparr>))"
    by (simp add: generateMessageTag_def M_def js_succ_def)
  show ?thesis
    using a b c d e unfolding ts_def M_def by (intro conjI)
qed

text \<open>
  C3, amended. For one instance, the first \<open>2\<^sup>5\<^sup>3\<close> tags are the session prefix followed by
  1, 2, 3, ...: the counter starts at 1 and grows by exactly 1 with each of these tags,
  so N tags generated in a row, N up to \<open>2\<^sup>5\<^sup>3\<close>, are pairwise distinct and their numeric
  suffixes strictly increase.
\<close>

theorem generateMessageTag_sequence:
  assumes "N \<le> 2 ^ 53"
  shows "fst (generateTags env N initial) = map (\<lambda>k. uqTagId env @ dec k) [1..<Suc N]
   \<and> map (tag_counter env) (fst (generateTags env N initial)) = [1..<Suc N]
   \<and> distinct (fst (generateTags env N initial))
   \<and> sorted_wrt (<) (map (tag_counter env) (fst (generateTags env N initial)))
   \<and> epoch (snd (generateTags env N initial)) = (if N < 2 ^ 53 then Suc N else N)"
proof -
  have "map (\<lambda>i. uqTagId env @ dec (min (Suc i) (2 ^ 53))) [0..<N]
      = map (\<lambda>i. uqTagId env @ dec (Suc i)) [0..<N]"
    using assms by (intro map_cong refl) (simp add: min_absorb1)
  also have "\<dots> = map (\<lambda>k. uqTagId env @ dec k) (map Suc [0..<N])"
    by (simp add: o_def)
  also have "map Suc [0..<N] = [1..<Suc N]"
    by (simp add: map_Suc_upt del: upt_Suc)
  finally have tags: "fst (generateTags env N initial) = map (\<lambda>k. uqTagId env @ dec k) [1..<Suc N]"
    unfolding generateTags_initial .
  have nums: "map (tag_counter env) (fst (generateTags env N initial)) = [1..<Suc N]"
    unfolding tags by (simp add: tag_counter_tag o_def del: upt_Suc)
  have "distinct (map (tag_counter env) (fst (generateTags env N initial)))"
    unfolding nums by simp
  then have d: "distinct (fst (generateTags env N initial))"
    by (simp add: distinct_map)
  have srt: "sorted_wrt (<) (map (tag_counter env) (fst (generateTags env N initial)))"
    unfolding nums by (simp del: upt_Suc)
  have "epoch (snd (generateTags env N initial)) = (if N < 2 ^ 53 then Suc N else N)"
    unfolding generateTags_initial using assms by (simp add: min_def)
  with tags nums d srt show ?thesis by blast
qed

lemma dec_digits: "dec (Suc 0) = ''1''" "dec 2 = ''2''" "dec 3 = ''3''"
  by code_simp+

theorem generateMessageTag_sequence_witness:
  "(3 :: nat) \<le> 2 ^ 53
   \<and> fst (generateTags example_env 3 initial) = [''12.34-1'', ''12.34-2'', ''12.34-3'']
   \<and> map (tag_counter example_env) (fst (generateTags example_env 3 initial)) = [1, 2, 3]
   \<and> distinct (fst (generateTags example_env 3 initial))
   \<and> epoch (snd (generateTags example_env 3 initial)) = 4"
proof -
  have n: "(3 :: nat) \<le> 2 ^ 53" by simp
  have l: "[1..<Suc 3] = [1, 2, 3]" by (simp add: upt_rec)
  have u: "uqTagId example_env = ''12.34-''" by (simp add: example_env_def)
  note t = generateMessageTag_sequence [OF n, of example_env, unfolded l]
  have a: "fst (generateTags example_env 3 initial) = [''12.34-1'', ''12.34-2'', ''12.34-3'']"
    using t [THEN conjunct1] by (simp add: u dec_digits)
  have b: "map (tag_counter example_env) (fst (generateTags example_env 3 initial)) = [1, 2, 3]"
    using t [THEN conjunct2, THEN conjunct1] .
  have c: "distinct (fst (generateTags example_env 3 initial))"
    using t [THEN conjunct2, THEN conjunct2, THEN conjunct1] .
  have d: "epoch (snd (generateTags example_env 3 initial)) = 4"
    using t [THEN conjunct2, THEN conjunct2, THEN conjunct2, THEN conjunct2] by simp
  show ?thesis using n a b c d by (intro conjI)
qed

subsection \<open>What a run of the event loop keeps\<close>


lemma set_remove_last: "set (remove_last x xs) \<subseteq> set xs"
  unfolding remove_last_def using set_remove1_subset [of x "rev xs"] by simp

lemma ws_off_simps [simp]:
  "promises (ws_off n cb s) = promises s"
  "isOpen (ws_off n cb s) = isOpen s"
  "epoch (ws_off n cb s) = epoch s"
  "listeners (ws_off n cb s) = remove_last (n, cb) (listeners s)"
  "log (ws_off n cb s) = log s @ [Off n cb]"
  by (simp_all add: ws_off_def)

lemma ws_on_simps [simp]:
  "promises (ws_on n cb s) = promises s"
  "isOpen (ws_on n cb s) = isOpen s"
  "epoch (ws_on n cb s) = epoch s"
  "listeners (ws_on n cb s) = listeners s @ [(n, cb)]"
  "log (ws_on n cb s) = log s @ [On n cb]"
  by (simp_all add: ws_on_def)

lemma cleanup_simps [simp]:
  "promises (cleanup i k s) = promises s"
  "isOpen (cleanup i k s) = isOpen s"
  "epoch (cleanup i k s) = epoch s"
  "log (cleanup i k s) = log s @ cleanup_offs i k"
  by (cases k; simp add: cleanup_def)+

lemma set_remove_last2:
  "set (remove_last x (remove_last y (remove_last z xs))) \<subseteq> set xs"
  using set_remove_last [of x "remove_last y (remove_last z xs)"]
    set_remove_last [of y "remove_last z xs"] set_remove_last [of z xs] by blast

lemma cleanup_listeners: "set (listeners (cleanup i k s)) \<subseteq> set (listeners s)"
  by (cases k) (simp_all add: cleanup_def set_remove_last2)

lemma cleanup_offs_Off: "list_all is_Off (cleanup_offs i k)"
  by (cases k) simp_all

lemma lookup_simps [simp]:
  "lookup (cleanup i k s) = lookup s"
  "lookup (ws_off n cb s) = lookup s"
  "lookup (ws_on n cb s) = lookup s"
  "lookup (s\<lparr>isOpen := b\<rparr>) = lookup s"
  "lookup (s\<lparr>log := l\<rparr>) = lookup s"
  "lookup (s\<lparr>epoch := e\<rparr>) = lookup s"
  by (simp_all add: lookup_def fun_eq_iff)

lemma lookup_update:
  "lookup (s\<lparr>promises := (promises s)[i := p]\<rparr>) j =
     (if j = i \<and> i < length (promises s) then Some p else lookup s j)"
  by (simp add: lookup_def)

lemma lookup_finish:
  "lookup (finish i r s) j =
     (if j = i \<and> pending s i then map_option (\<lambda>p. p\<lparr>outcome := Some r\<rparr>) (lookup s i) else lookup s j)"
  by (auto simp: finish_def pending_def lookup_update split: option.splits) (auto simp: lookup_def)

lemma later_refl: "later s s"
  by (simp add: later_def)

lemma later_trans: "later s t \<Longrightarrow> later t u \<Longrightarrow> later s u"
  unfolding later_def
  apply (intro conjI)
      apply simp
     apply simp
    apply (metis outcome_of_def)
   apply blast
  apply (elim conjE exE)
  subgoal for offs offs' by (rule exI [of _ "offs @ offs'"]) simp
  done

lemma later_finish: "later s (finish i r s)"
proof (cases "pending s i")
  case False
  then have "finish i r s = s"
    by (auto simp: finish_def pending_def split: option.splits)
  then show ?thesis by (simp add: later_refl)
next
  case True
  then obtain p where p: "lookup s i = Some p" "outcome p = None"
    by (auto simp: pending_def split: option.splits)
  then have i: "i < length (promises s)" "promises s ! i = p"
    by (auto simp: lookup_def split: if_splits)
  let ?t = "s\<lparr>promises := (promises s)[i := p\<lparr>outcome := Some r\<rparr>]\<rparr>"
  have f: "finish i r s = cleanup i (kind p) ?t"
    using p by (simp add: finish_def)
  have k: "map kind (promises (finish i r s)) = map kind (promises s)"
    unfolding f using i by (simp add: map_update list_update_same_conv)
  have o: "\<forall>j. outcome_of s j \<noteq> None \<longrightarrow> lookup (finish i r s) j = lookup s j"
    using p True by (auto simp: lookup_finish outcome_of_def)
  have l: "set (listeners (finish i r s)) \<subseteq> set (listeners s)"
    unfolding f using cleanup_listeners [of i "kind p" ?t] by simp
  have g: "\<exists>offs. log (finish i r s) = log s @ offs \<and> list_all is_Off offs"
    unfolding f by (rule exI [of _ "cleanup_offs i (kind p)"]) (simp add: cleanup_offs_Off)
  have e: "epoch (finish i r s) = epoch s"
    unfolding f by simp
  show ?thesis unfolding later_def using k o l g e by blast
qed

lemma later_tick: "later s (tick dt s)"
proof -
  have k: "map kind (promises (tick dt s)) = map kind (promises s)"
    by (simp add: tick_def o_def if_distrib cong: if_cong)
  have o: "\<forall>j. outcome_of s j \<noteq> None \<longrightarrow> lookup (tick dt s) j = lookup s j"
    by (auto simp: tick_def lookup_def outcome_of_def)
  show ?thesis unfolding later_def using k o by (simp add: tick_def)
qed

lemma later_ready: "later s (s\<lparr>isOpen := b\<rparr>)"
  by (simp add: later_def)

lemma run_later: "run T X s t \<Longrightarrow> later s t"
proof (induction rule: run.induct)
  case run_refl
  show ?case by (rule later_refl)
next
  case (run_finish t j r)
  then show ?case using later_trans later_finish by blast
next
  case (run_tick t dt)
  then show ?case using later_trans later_tick by blast
next
  case (run_ready t b)
  then show ?case using later_trans later_ready by blast
qed

lemma run_trans: "run T X t u \<Longrightarrow> run T X s t \<Longrightarrow> run T X s u"
  by (induction rule: run.induct) (auto intro: run.intros)

lemma run_invoke: "owner cb \<notin> X \<Longrightarrow> run T X s t \<Longrightarrow> run T X s (invoke env cb arg t)"
  by (cases cb) (auto intro: run.intros)

lemma later_length: "later s t \<Longrightarrow> length (promises t) = length (promises s)"
  unfolding later_def using map_eq_imp_length_eq by blast

lemma later_kind_nth:
  assumes "later s t" and "j < length (promises s)"
  shows "kind (promises t ! j) = kind (promises s ! j)"
proof -
  have m: "map kind (promises t) = map kind (promises s)"
    using assms(1) by (simp add: later_def)
  have "map kind (promises t) ! j = kind (promises t ! j)"
    using assms later_length [of s t] by simp
  moreover have "map kind (promises s) ! j = kind (promises s ! j)"
    using assms by simp
  ultimately show ?thesis using m by simp
qed

lemma later_catcher: "later s t \<Longrightarrow> catcher t j = catcher s j"
  using later_kind_nth [of s t j] later_length [of s t]
  by (simp add: catcher_def lookup_def)

lemma later_outcome: "later s t \<Longrightarrow> outcome_of s i = Some r \<Longrightarrow> outcome_of t i = Some r"
  by (simp add: later_def outcome_of_def)

lemma later_pending: "later s t \<Longrightarrow> pending t i \<Longrightarrow> pending s i"
proof -
  assume l: "later s t" and p: "pending t i"
  then have i: "i < length (promises s)"
    using later_length [of s t] by (auto simp: pending_def lookup_def split: if_splits)
  show "pending s i"
  proof (rule ccontr)
    assume "\<not> pending s i"
    with i obtain r where "outcome_of s i = Some r"
      by (auto simp: pending_def outcome_of_def lookup_def)
    with l have "outcome_of t i = Some r" by (rule later_outcome)
    with p show False by (auto simp: pending_def outcome_of_def split: option.splits)
  qed
qed

text \<open>Settling one promise, and the promises whose deadlines have passed.\<close>

lemma settle_cases:
  "settle env j r s =
     (if pending s j
      then (case (r, catcher s j) of
              (Inl e, Some cb) \<Rightarrow> invoke env cb e (finish j r s)
            | _ \<Rightarrow> finish j r s)
      else s)"
  by (auto simp: settle_def catcher_def pending_def split: option.splits sum.splits pkind.splits)

lemma run_settle:
  assumes "j \<notin> X" and "\<forall>cb. catcher t j = Some cb \<longrightarrow> owner cb \<notin> X" and "run T X s t"
  shows "run T X s (settle env j r t)"
  using assms
  by (auto simp: settle_cases intro!: run_invoke run_finish split: sum.splits option.splits)

lemma run_fold_settle:
  assumes "\<forall>j \<in> set js. j \<notin> X \<and> (\<forall>cb. catcher s j = Some cb \<longrightarrow> owner cb \<notin> X)"
    and "run T X s t"
  shows "run T X s (fold (\<lambda>j. settle env j r) js t)"
  using assms
proof (induction js arbitrary: t)
  case Nil
  then show ?case by simp
next
  case (Cons j js)
  have "catcher t j = catcher s j"
    using Cons.prems(2) run_later later_catcher by blast
  then have "run T X s (settle env j r t)"
    using Cons.prems by (intro run_settle) auto
  then show ?case using Cons by simp
qed

lemma run_fold_invoke:
  assumes "\<forall>x \<in> set ls. owner (snd x) \<notin> X" and "run T X s t"
  shows "run T X s (fold (\<lambda>(n, cb) u. if n = name then invoke env cb arg u else u) ls t)"
  using assms
proof (induction ls arbitrary: t)
  case Nil
  then show ?case by simp
next
  case (Cons x ls)
  obtain n cb where x: "x = (n, cb)" by (cases x)
  have "run T X s (if n = name then invoke env cb arg t else t)"
    using Cons.prems x by (auto intro: run_invoke)
  then show ?case using Cons x by simp
qed

lemma run_emit:
  assumes "\<forall>x \<in> set (listeners t). owner (snd x) \<notin> X" and "run T X s t"
  shows "run T X s (emit env name arg t)"
  unfolding emit_def using assms by (rule run_fold_invoke)

lemma run_advance:
  assumes "T" and "\<forall>j. pending t j \<and> timer_of t j \<le> dt \<longrightarrow>
             j \<notin> X \<and> (\<forall>cb. catcher t j = Some cb \<longrightarrow> owner cb \<notin> X)"
    and "run T X s t"
  shows "run T X s (advance env dt t)"
proof -
  have "run T X t (fold (\<lambda>j. settle env j (Inl (ErrV TimedOut))) (expired dt t) t)"
    using assms(2) by (intro run_fold_settle run_refl) (auto simp: expired_def)
  then have "run T X t (advance env dt t)"
    unfolding advance_def using assms(1) by (rule run_tick)
  then show ?thesis using assms(3) by (rule run_trans)
qed

lemma run_dispatch:
  assumes "\<forall>x \<in> set (listeners t). owner (snd x) \<notin> X"
    and "\<forall>j r. e = WriteDone j r \<longrightarrow> j \<notin> X \<and> (\<forall>cb. catcher t j = Some cb \<longrightarrow> owner cb \<notin> X)"
    and "run T X s t"
  shows "run T X s (dispatch env e t)"
proof (cases e)
  case (Emit name arg)
  then show ?thesis using assms by (simp add: run_emit)
next
  case (WriteDone j r)
  then show ?thesis using assms
    by (cases r) (auto intro: run_settle split: option.splits pkind.splits)
next
  case (ReadyState b)
  then show ?thesis using assms by (simp add: run_ready)
qed

lemma run_await:
  "await env i s evs = (r, s', evs') \<Longrightarrow> run True {} s s'"
proof (induction env i s evs rule: await.induct)
  case (1 env i s)
  then show ?case
    by (auto simp: Let_def split: option.splits intro: run_refl run_advance)
next
  case (2 env i s dt e evs)
  show ?case
  proof (cases "outcome_of s i")
    case (Some a)
    with 2 show ?thesis by (auto intro: run_refl)
  next
    case None
    show ?thesis
    proof (cases "timer_of s i \<le> dt")
      case True
      with 2 None show ?thesis by (auto simp: Let_def intro: run_refl run_advance)
    next
      case False
      let ?t = "dispatch env e (advance env dt s)"
      have "run True {} s ?t"
        by (intro run_dispatch run_advance run_refl) auto
      moreover have "run True {} ?t s'"
        using 2 None False by simp
      ultimately show ?thesis using run_trans by blast
    qed
  qed
qed


text \<open>\<^verbatim>\<open>await\<close> returns the outcome of the promise it waits for.\<close>

lemma outcome_tick [simp]: "outcome_of (tick dt s) i = outcome_of s i"
  by (simp add: outcome_of_def lookup_def tick_def)

lemma pending_tick [simp]: "pending (tick dt s) i = pending s i"
  by (simp add: pending_def lookup_def tick_def)

lemma pending_outcome: "pending s i \<longleftrightarrow> i < length (promises s) \<and> outcome_of s i = None"
  by (simp add: pending_def outcome_of_def lookup_def)

lemma outcome_finish: "pending s i \<Longrightarrow> outcome_of (finish i r s) i = Some r"
  by (auto simp: outcome_of_def lookup_finish pending_def split: option.splits)

lemma run_length: "run T X s t \<Longrightarrow> length (promises t) = length (promises s)"
  using run_later later_length by blast

lemma run_invoke_self: "run T X s (invoke env cb arg s) \<or> owner cb \<in> X"
  using run_invoke [of cb X T s s env arg] run_refl by blast

lemma settle_settles:
  assumes "i < length (promises s)"
  shows "outcome_of (settle env i r s) i \<noteq> None"
proof (cases "pending s i")
  case False
  then have "settle env i r s = s" by (simp add: settle_cases)
  with False assms show ?thesis by (simp add: pending_outcome)
next
  case True
  then have f: "outcome_of (finish i r s) i = Some r" by (rule outcome_finish)
  have "later (finish i r s) (invoke env cb e (finish i r s))" for cb e
    using run_invoke [of cb "{}" True "finish i r s" "finish i r s" env e] run_refl run_later
    by blast
  then have "outcome_of (invoke env cb e (finish i r s)) i = Some r" for cb e
    using f later_outcome by blast
  with f True show ?thesis
    by (auto simp: settle_cases split: sum.splits option.splits)
qed

lemma later_settle: "later s (settle env j r s)"
  using run_settle [of j "{}" s True s env r] run_refl run_later by blast

lemma later_fold_settle: "later s (fold (\<lambda>j. settle env j r) js s)"
  using run_fold_settle [of js "{}" s True s env r] run_refl run_later by blast

lemma fold_settle_settles:
  assumes "i \<in> set js" and "i < length (promises s)"
  shows "outcome_of (fold (\<lambda>j. settle env j r) js s) i \<noteq> None"
  using assms
proof (induction js arbitrary: s)
  case Nil
  then show ?case by simp
next
  case (Cons j js)
  let ?s1 = "settle env j r s"
  have len: "i < length (promises ?s1)"
    using Cons.prems(2) later_settle [of s env j r] later_length by metis
  show ?case
  proof (cases "j = i")
    case True
    then obtain x where "outcome_of ?s1 i = Some x"
      using settle_settles [OF Cons.prems(2), of env r] by auto
    then have "outcome_of (fold (\<lambda>j. settle env j r) js ?s1) i = Some x"
      using later_fold_settle later_outcome by blast
    then show ?thesis by simp
  next
    case False
    with Cons.prems have "i \<in> set js" by simp
    then show ?thesis using Cons.IH [OF _ len] by simp
  qed
qed

lemma expired_set: "i \<in> set (expired dt s) \<longleftrightarrow> pending s i \<and> timer_of s i \<le> dt"
  by (auto simp: expired_def pending_def lookup_def split: if_splits)

lemma advance_settles:
  assumes "pending s i" and "timer_of s i \<le> dt"
  shows "outcome_of (advance env dt s) i \<noteq> None"
proof -
  have "i \<in> set (expired dt s)" using assms by (simp add: expired_set)
  moreover have "i < length (promises s)" using assms(1) by (simp add: pending_outcome)
  ultimately show ?thesis
    unfolding advance_def by (simp add: fold_settle_settles)
qed

lemma result_of_outcome: "outcome_of s i = Some r \<Longrightarrow> result_of s i = r"
  by (simp add: result_of_def)

lemma advance_result:
  assumes "i < length (promises s)" and "outcome_of s i = None"
  shows "outcome_of (advance env (timer_of s i) s) i = Some (result_of (advance env (timer_of s i) s) i)"
proof -
  have "pending s i" using assms by (simp add: pending_outcome)
  then obtain r where "outcome_of (advance env (timer_of s i) s) i = Some r"
    using advance_settles [of s i "timer_of s i" env] by auto
  then show ?thesis by (simp add: result_of_def)
qed

lemma await_result:
  "await env i s evs = (r, s', evs') \<Longrightarrow> i < length (promises s) \<Longrightarrow> outcome_of s' i = Some r"
proof (induction env i s evs rule: await.induct)
  case (1 env i s)
  then show ?case
    using advance_result [of i s env] by (auto simp: Let_def split: option.splits)
next
  case (2 env i s dt e evs)
  show ?case
  proof (cases "outcome_of s i")
    case (Some a)
    with 2 show ?thesis by auto
  next
    case None
    show ?thesis
    proof (cases "timer_of s i \<le> dt")
      case True
      with 2 None show ?thesis
        using advance_result [of i s env] by (auto simp: Let_def)
    next
      case False
      let ?t = "dispatch env e (advance env dt s)"
      have "run True {} s ?t"
        by (intro run_dispatch run_advance run_refl) auto
      then have "i < length (promises ?t)"
        using 2 run_length by simp
      then show ?thesis using 2 None False by simp
    qed
  qed
qed

subsection \<open>Concrete runs\<close>

lemmas eval_defs = waitForMessage_def waitForMessage_start_def awaitNextMessage_def
  awaitNextMessage_start_def new_promise_def ws_on_def ws_off_def remove_last_def opened_def
  initial_def example_env_def outcome_of_def lookup_def timer_of_def pending_def advance_def
  expired_def tick_def settle_def finish_def cleanup_def emit_def result_of_def Let_def
  keepAliveTick_def sendNode_start_def sendRawMessage_start_def startKeepAliveRequest_def

subsection \<open>The waits\<close>

text \<open>
  C9. \<^verbatim>\<open>awaitNextMessage\<close> has the precondition of the send path: when the transport is not
  open it fails at once with ConnectionClosed, and nothing has happened: no listener
  is registered, nothing is sent, no event is consumed.
\<close>

theorem awaitNextMessage_closed:
  "\<not> isOpen s \<Longrightarrow> awaitNextMessage env sendMsg s evs = (Inl (ErrV ConnectionClosed), s, evs)"
  by (simp add: awaitNextMessage_def)

theorem awaitNextMessage_closed_witness:
  "\<not> isOpen initial \<and>
   awaitNextMessage example_env (Some [1]) initial [(3, Emit ''frame'' (Bytes [5]))] =
     (Inl (ErrV ConnectionClosed), initial, [(3, Emit ''frame'' (Bytes [5]))])"
  using awaitNextMessage_closed [of initial example_env "Some [1]" "[(3, Emit ''frame'' (Bytes [5]))]"]
  by (simp add: initial_def)

text \<open>
  C1. \<^verbatim>\<open>waitForMessage\<close> registers the listener of the tag and a listener of the
  transport's close event, but line 165 is \<^verbatim>\<open>ws.off('error', onErr)\<close>: no listener of the
  error event is registered. A wait for tag t1 with a deadline of 1000 ms, on a
  transport that emits an error after 5 ms, is not rejected with that error: it stays
  pending until its deadline and is rejected with the timeout. \<^verbatim>\<open>awaitNextMessage\<close>, which
  registers \<^verbatim>\<open>ws.on('error', onClose)\<close>, is rejected with the error.
\<close>

theorem waitForMessage_error_unheard:
  "listeners (snd (waitForMessage_start example_env ''t1'' (Some 1000) opened)) =
     [(''TAG:t1'', OnRecv 0), (''close'', OnErr 0)]
   \<and> waitForMessage example_env ''t1'' (Some 1000) opened
         [(5, Emit ''error'' (ErrV (Failure ''ECONNRESET'')))]
       = (Inl (ErrV TimedOut),
          \<lparr>isOpen = True, listeners = [],
             promises = [\<lparr>kind = Tagged ''t1'', timer = 995, outcome = Some (Inl (ErrV TimedOut))\<rparr>],
             epoch = 1,
             log = [On ''TAG:t1'' (OnRecv 0), On ''close'' (OnErr 0), Off ''error'' (OnErr 0),
                    Off ''TAG:t1'' (OnRecv 0), Off ''close'' (OnErr 0), Off ''error'' (OnErr 0)]\<rparr>,
          [])
   \<and> fst (awaitNextMessage example_env None opened
         [(5, Emit ''error'' (ErrV (Failure ''ECONNRESET'')))])
       = Inl (ErrV (Failure ''ECONNRESET''))"
  by (simp add: eval_defs)


subsection \<open>The keep-alive\<close>

text \<open>
  C6. The period of the keep-alive timer is the literal 30000 of line 252, whatever the
  configured \<^verbatim>\<open>keepAliveIntervalMs\<close> is (25000 here). A tick whose send fails logs no error:
  on a closed transport the rejected promise of the send is dropped and the tick logs
  that the ping was sent; when the codec throws on the frame, the exception leaves the
  timer's callback.
\<close>

theorem keepAlive_interval_and_failure:
  "keepAliveIntervalMs example_env = 25000
   \<and> log (startKeepAliveRequest initial) = [SetInterval 30000]
   \<and> keepAliveTick (example_env\<lparr>encodeBinaryNode := \<lambda>v. Inr [9]\<rparr>) initial =
       (None, Some (Inl (ErrV ConnectionClosed)),
        initial\<lparr>log := [LogDebug ''Keep-alive ping sent'']\<rparr>)
   \<and> keepAliveTick example_env opened = (Some (ErrV TypeError), None, opened)"
  by (simp add: eval_defs)

subsection \<open>The connect target\<close>




subsection \<open>Sending\<close>


lemma await_later: "await env i s evs = (r, s', evs') \<Longrightarrow> later s s'"
  using run_await run_later by blast

lemma later_grows: "later s t \<Longrightarrow> grows s [] t"
  by (simp add: later_def grows_def)

lemma grows_trans: "grows s a t \<Longrightarrow> grows t [] u \<Longrightarrow> grows s a u"
  unfolding grows_def
  by (elim exE conjE) (metis append.assoc append_Nil list_all_append)

lemma grows_log: "log t = log s @ a \<Longrightarrow> grows t b u \<Longrightarrow> grows s (a @ b) u"
  by (auto simp: grows_def)

lemma sendRawMessage_start_closed:
  "\<not> isOpen s \<Longrightarrow> sendRawMessage_start env d c s = (Inl (ErrV ConnectionClosed), s)"
  by (simp add: sendRawMessage_start_def)

lemma sendRawMessage_start_open:
  "isOpen s \<Longrightarrow> sendRawMessage_start env d c s =
     (Inr (length (promises s)),
      s\<lparr>promises := promises s @ [\<lparr>kind = Write c, timer = connectTimeoutMs env, outcome = None\<rparr>],
        log := log s @ [EncodeFrame d, Send (encodeFrame env (log s) d)]\<rparr>)"
  by (simp add: sendRawMessage_start_def new_promise_def Let_def)

lemma outcome_append:
  "outcome_of s j = Some r \<Longrightarrow> outcome_of (s\<lparr>promises := promises s @ ps\<rparr>) j = Some r"
  by (auto simp: outcome_of_def lookup_def nth_append split: if_splits)

lemma outcome_log [simp]: "outcome_of (s\<lparr>log := l\<rparr>) j = outcome_of s j"
  by (simp add: outcome_of_def)

lemma outcome_new:
  "outcome_of (s\<lparr>promises := promises s @ [p]\<rparr>) (length (promises s)) = outcome p"
  by (simp add: outcome_of_def lookup_def)

lemma sendRawMessage_facts:
  assumes "sendRawMessage env d s evs = (r, s', evs')"
  shows "grows s (send_trace env d s) s'"
    and "outcome_of s j = Some x \<Longrightarrow> outcome_of s' j = Some x"
    and "epoch s' = epoch s"
    and "\<not> isOpen s \<Longrightarrow> r = Inl (ErrV ConnectionClosed) \<and> s' = s \<and> evs' = evs"
    and "isOpen s \<Longrightarrow> outcome_of s' (length (promises s)) = Some r
           \<and> length (promises s') = Suc (length (promises s))"
proof -
  show c: "\<not> isOpen s \<Longrightarrow> r = Inl (ErrV ConnectionClosed) \<and> s' = s \<and> evs' = evs"
    using assms by (simp add: sendRawMessage_def sendRawMessage_start_closed)
  let ?t = "s\<lparr>promises := promises s @ [\<lparr>kind = Write None, timer = connectTimeoutMs env, outcome = None\<rparr>],
        log := log s @ [EncodeFrame d, Send (encodeFrame env (log s) d)]\<rparr>"
  have o: "await env (length (promises s)) ?t evs = (r, s', evs')" if "isOpen s"
    using assms that by (simp add: sendRawMessage_def sendRawMessage_start_open)
  have l: "later ?t s'" if "isOpen s"
    using o that await_later by blast
  show "grows s (send_trace env d s) s'"
  proof (cases "isOpen s")
    case True
    have "grows ?t [] s'" using l True later_grows by blast
    then show ?thesis using True by (auto simp: grows_def send_trace_def)
  next
    case False
    with c show ?thesis by (simp add: grows_def send_trace_def)
  qed
  show "outcome_of s j = Some x \<Longrightarrow> outcome_of s' j = Some x"
  proof (cases "isOpen s")
    case True
    assume "outcome_of s j = Some x"
    then have "outcome_of ?t j = Some x"
      by (auto simp: outcome_of_def lookup_def nth_append split: if_splits)
    then show ?thesis using l True later_outcome by blast
  next
    case False
    assume "outcome_of s j = Some x"
    with c False show ?thesis by simp
  qed
  show "epoch s' = epoch s"
  proof (cases "isOpen s")
    case True
    then show ?thesis using l by (simp add: later_def)
  next
    case False
    with c show ?thesis by simp
  qed
  show "isOpen s \<Longrightarrow> outcome_of s' (length (promises s)) = Some r
           \<and> length (promises s') = Suc (length (promises s))"
  proof -
    assume op: "isOpen s"
    have "outcome_of s' (length (promises s)) = Some r"
      using await_result [OF o [OF op]] by simp
    moreover have "length (promises s') = Suc (length (promises s))"
      using later_length [OF l [OF op]] by simp
    ultimately show ?thesis by simp
  qed
qed

lemma sendNode_eq:
  "sendNode env f s evs =
     (case encodeBinaryNode env f of
        Inl e \<Rightarrow> (Inl e, s\<lparr>log := log s @ trace_line env f\<rparr>, evs)
      | Inr buff \<Rightarrow> sendRawMessage env buff (s\<lparr>log := log s @ trace_line env f\<rparr>) evs)"
  by (auto simp: sendNode_def sendNode_start_def sendRawMessage_def trace_line_def Let_def
      split: sum.splits prod.splits)

lemma sendNode_facts:
  assumes "sendNode env f s evs = (r, s', evs')"
  shows "grows s (trace_line env f @
           (case encodeBinaryNode env f of
              Inl e \<Rightarrow> []
            | Inr buff \<Rightarrow> send_trace env buff (s\<lparr>log := log s @ trace_line env f\<rparr>))) s'"
    and "outcome_of s j = Some x \<Longrightarrow> outcome_of s' j = Some x"
    and "epoch s' = epoch s"
    and "\<not> isOpen s \<or> (\<exists>e. encodeBinaryNode env f = Inl e) \<Longrightarrow>
           (\<exists>e. r = Inl e) \<and> length (promises s') = length (promises s)"
    and "isOpen s \<Longrightarrow> encodeBinaryNode env f = Inr buff \<Longrightarrow>
           outcome_of s' (length (promises s)) = Some r
           \<and> length (promises s') = Suc (length (promises s))"
proof -
  let ?s1 = "s\<lparr>log := log s @ trace_line env f\<rparr>"
  show "grows s (trace_line env f @
           (case encodeBinaryNode env f of
              Inl e \<Rightarrow> []
            | Inr buff \<Rightarrow> send_trace env buff ?s1)) s'"
  proof (cases "encodeBinaryNode env f")
    case (Inl e)
    then show ?thesis using assms by (auto simp: sendNode_eq grows_def)
  next
    case (Inr buff)
    then have "sendRawMessage env buff ?s1 evs = (r, s', evs')"
      using assms by (simp add: sendNode_eq)
    then have "grows ?s1 (send_trace env buff ?s1) s'" by (rule sendRawMessage_facts)
    then show ?thesis using Inr by (auto simp: grows_def)
  qed
  show "outcome_of s j = Some x \<Longrightarrow> outcome_of s' j = Some x"
  proof (cases "encodeBinaryNode env f")
    case (Inl e)
    assume "outcome_of s j = Some x"
    then show ?thesis using Inl assms by (auto simp: sendNode_eq)
  next
    case (Inr buff)
    assume o: "outcome_of s j = Some x"
    have "sendRawMessage env buff ?s1 evs = (r, s', evs')"
      using assms Inr by (simp add: sendNode_eq)
    from sendRawMessage_facts(2) [OF this, of j x] o show ?thesis by simp
  qed
  show "epoch s' = epoch s"
  proof (cases "encodeBinaryNode env f")
    case (Inl e)
    then show ?thesis using assms by (auto simp: sendNode_eq)
  next
    case (Inr buff)
    have "sendRawMessage env buff ?s1 evs = (r, s', evs')"
      using assms Inr by (simp add: sendNode_eq)
    from sendRawMessage_facts(3) [OF this] show ?thesis by simp
  qed
  show "\<not> isOpen s \<or> (\<exists>e. encodeBinaryNode env f = Inl e) \<Longrightarrow>
           (\<exists>e. r = Inl e) \<and> length (promises s') = length (promises s)"
  proof (cases "encodeBinaryNode env f")
    case (Inl e)
    then show ?thesis using assms by (auto simp: sendNode_eq)
  next
    case (Inr buff)
    assume "\<not> isOpen s \<or> (\<exists>e. encodeBinaryNode env f = Inl e)"
    with Inr have c: "\<not> isOpen ?s1" by simp
    have "sendRawMessage env buff ?s1 evs = (r, s', evs')"
      using assms Inr by (simp add: sendNode_eq)
    from sendRawMessage_facts(4) [OF this c] show ?thesis by simp
  qed
  show "isOpen s \<Longrightarrow> encodeBinaryNode env f = Inr buff \<Longrightarrow>
           outcome_of s' (length (promises s)) = Some r
           \<and> length (promises s') = Suc (length (promises s))"
  proof -
    assume op: "isOpen s" and b: "encodeBinaryNode env f = Inr buff"
    have "sendRawMessage env buff ?s1 evs = (r, s', evs')"
      using assms b by (simp add: sendNode_eq)
    from sendRawMessage_facts(5) [OF this] op show ?thesis by simp
  qed
qed

lemma waitForMessage_start_eq:
  "waitForMessage_start env msgId timeoutMs s =
     (length (promises s),
      s\<lparr>promises := promises s @
           [\<lparr>kind = Tagged msgId,
             timer = (case timeoutMs of None \<Rightarrow> defaultQueryTimeoutMs env | Some t \<Rightarrow> t),
             outcome = None\<rparr>],
        listeners := remove_last (''error'', OnErr (length (promises s)))
           (listeners s @ [(''TAG:'' @ msgId, OnRecv (length (promises s))),
                           (''close'', OnErr (length (promises s)))]),
        log := log s @ [On (''TAG:'' @ msgId) (OnRecv (length (promises s))),
                        On ''close'' (OnErr (length (promises s))),
                        Off ''error'' (OnErr (length (promises s)))]\<rparr>)"
  by (simp add: waitForMessage_start_def new_promise_def Let_def ws_on_def ws_off_def)

subsection \<open>query\<close>

lemma verdict_eq:
  "(case res of
      Inl e \<Rightarrow> (Inl e, node1, s4, evs2)
    | Inr result \<Rightarrow>
        (case result of
           NodeV n \<Rightarrow>
             (case assertNodeErrorFree env n of
                Some e \<Rightarrow> (Inl e, node1, s4, evs2)
              | None \<Rightarrow> (Inr result, node1, s4, evs2))
         | Bytes b \<Rightarrow> (Inr result, node1, s4, evs2)
         | ErrV x \<Rightarrow> (Inr result, node1, s4, evs2)
         | Undefined \<Rightarrow> (Inl (ErrV TypeError), node1, s4, evs2)
         | Str x \<Rightarrow> (Inl (ErrV TypeError), node1, s4, evs2)))
   = (verdict env res, node1, s4, evs2)"
  by (auto simp: verdict_def assertNodeErrorFree_def split: sum.splits jsval.splits option.splits)

lemma query_eq:
  "query env node timeoutMs s evs =
     (let node1 = (if no_id node then set_id (uqTagId env @ dec (epoch s)) node else node);
          s1 = (if no_id node then s\<lparr>epoch := js_succ (epoch s)\<rparr> else s);
          s2 = snd (waitForMessage_start env (msg_id node1) timeoutMs s1)
      in case sendNode env (NodeV node1) s2 evs of
           (Inl e, s3, evs1) \<Rightarrow> (Inl e, node1, s3, evs1)
         | (Inr u, s3, evs1) \<Rightarrow>
             (case await env (length (promises s)) s3 evs1 of
                (res, s4, evs2) \<Rightarrow> (verdict env res, node1, s4, evs2)))"
proof (cases "no_id node")
  case True
  show ?thesis
    unfolding query_def Let_def
    by (simp add: True generateMessageTag_def waitForMessage_start_eq verdict_eq [symmetric]
        split: prod.splits sum.splits)
next
  case False
  show ?thesis
    unfolding query_def Let_def
    by (simp add: False waitForMessage_start_eq verdict_eq [symmetric]
        split: prod.splits sum.splits)
qed

lemma query_run:
  assumes "query env node timeoutMs s evs = (r, node', s', evs')"
  shows "\<exists>s1 s2 sr s3 evs1.
    node' = (if no_id node then set_id (uqTagId env @ dec (epoch s)) node else node)
    \<and> s1 = (if no_id node then s\<lparr>epoch := js_succ (epoch s)\<rparr> else s)
    \<and> s2 = snd (waitForMessage_start env (msg_id node') timeoutMs s1)
    \<and> sendNode env (NodeV node') s2 evs = (sr, s3, evs1)
    \<and> (\<forall>e. sr = Inl e \<longrightarrow> r = Inl e \<and> s' = s3 \<and> evs' = evs1)
    \<and> (\<forall>u. sr = Inr u \<longrightarrow>
         (\<exists>res. await env (length (promises s)) s3 evs1 = (res, s', evs') \<and> r = verdict env res))"
proof -
  define node1 where "node1 = (if no_id node then set_id (uqTagId env @ dec (epoch s)) node else node)"
  define s1 where "s1 = (if no_id node then s\<lparr>epoch := js_succ (epoch s)\<rparr> else s)"
  define s2 where "s2 = snd (waitForMessage_start env (msg_id node1) timeoutMs s1)"
  obtain sr s3 evs1 where sn: "sendNode env (NodeV node1) s2 evs = (sr, s3, evs1)"
    by (cases "sendNode env (NodeV node1) s2 evs") auto
  have q: "query env node timeoutMs s evs =
      (case sr of
         Inl e \<Rightarrow> (Inl e, node1, s3, evs1)
       | Inr u \<Rightarrow>
           (case await env (length (promises s)) s3 evs1 of
              (res, s4, evs2) \<Rightarrow> (verdict env res, node1, s4, evs2)))"
    unfolding query_eq Let_def node1_def [symmetric] s1_def [symmetric] s2_def [symmetric]
    by (simp add: sn split: sum.splits prod.splits)
  have n: "node' = node1"
    using assms unfolding q by (auto split: sum.splits prod.splits)
  have a: "sr = Inl e \<Longrightarrow> r = Inl e \<and> s' = s3 \<and> evs' = evs1" for e
    using assms unfolding q by simp
  have b: "sr = Inr u \<Longrightarrow>
       \<exists>res. await env (length (promises s)) s3 evs1 = (res, s', evs') \<and> r = verdict env res" for u
    using assms unfolding q by (auto split: prod.splits)
  show ?thesis
    apply (rule exI [of _ s1], rule exI [of _ s2], rule exI [of _ sr], rule exI [of _ s3],
        rule exI [of _ evs1])
    using n a b sn node1_def s1_def s2_def by simp
qed

lemma map_of_update_other: "k \<noteq> k' \<Longrightarrow> map_of (AList.update k' v al) k = map_of al k"
  by (simp add: update_conv)

lemma outcome_beyond: "length (promises s) \<le> j \<Longrightarrow> outcome_of s j = None"
  by (simp add: outcome_of_def lookup_def)



lemma js_succ_one: "js_succ (Suc 0) = 2"
  by (simp add: js_succ_def)

lemmas eval_query = eval_defs query_def sendNode_def no_id_def set_id_def msg_id_def
  generateMessageTag_def assertNodeErrorFree_def example_node_def dec_digits js_succ_one

lemma query_example:
  "query example_env example_node None opened
     [(5, WriteDone 1 None), (7, Emit ''TAG:12.34-1'' (NodeV (BinaryNode ''error'' [] None)))]
   = (Inl (ErrV (ProtocolError ''500'' ''boom'')),
      BinaryNode ''iq'' [(''type'', ''get''), (''id'', ''12.34-1'')] None,
      \<lparr>isOpen = True, listeners = [],
         promises = [\<lparr>kind = Tagged ''12.34-1'', timer = 59988,
                      outcome = Some (Inr (NodeV (BinaryNode ''error'' [] None)))\<rparr>,
                     \<lparr>kind = Write None, timer = 19995, outcome = Some (Inr Undefined)\<rparr>],
         epoch = 2,
         log = [On ''TAG:12.34-1'' (OnRecv 0), On ''close'' (OnErr 0), Off ''error'' (OnErr 0),
                EncodeFrame [7], Send [0, 7],
                Off ''TAG:12.34-1'' (OnRecv 0), Off ''close'' (OnErr 0), Off ''error'' (OnErr 0)]\<rparr>,
      [])"
  by (simp add: eval_query)

text \<open>
  C10. \<^verbatim>\<open>query\<close> changes the caller's node in place: a node without an identifier
  carries the freshly generated tag in its \<open>id\<close> attribute afterwards, whether the call
  succeeded or failed, and that identifier is the tag the wait was registered for; a
  node that had an identifier is unchanged; no other attribute, nor the tag or the
  content of the node, is changed.
\<close>

theorem query_sets_id:
  assumes "query env node timeoutMs s evs = (r, node', s', evs')"
  shows "(no_id node \<longrightarrow> map_of (attrs node') ''id'' = Some (uqTagId env @ dec (epoch s)))
       \<and> (\<not> no_id node \<longrightarrow> node' = node)
       \<and> (\<forall>k. k \<noteq> ''id'' \<longrightarrow> map_of (attrs node') k = map_of (attrs node) k)
       \<and> tag node' = tag node \<and> content node' = content node
       \<and> On (''TAG:'' @ msg_id node') (OnRecv (length (promises s))) \<in> set (log s')"
proof -
  from assms obtain s1 s2 sr s3 evs1 where
    n: "node' = (if no_id node then set_id (uqTagId env @ dec (epoch s)) node else node)"
    and s1: "s1 = (if no_id node then s\<lparr>epoch := js_succ (epoch s)\<rparr> else s)"
    and s2: "s2 = snd (waitForMessage_start env (msg_id node') timeoutMs s1)"
    and sn: "sendNode env (NodeV node') s2 evs = (sr, s3, evs1)"
    and a: "\<forall>e. sr = Inl e \<longrightarrow> r = Inl e \<and> s' = s3 \<and> evs' = evs1"
    and b: "\<forall>u. sr = Inr u \<longrightarrow>
       (\<exists>res. await env (length (promises s)) s3 evs1 = (res, s', evs') \<and> r = verdict env res)"
    using query_run [OF assms] by (elim exE conjE) (rule that)
  have l2: "On (''TAG:'' @ msg_id node') (OnRecv (length (promises s))) \<in> set (log s2)"
    unfolding s2 s1 by (simp add: waitForMessage_start_eq)
  have "\<exists>ext. log s3 = log s2 @ ext"
    using sendNode_facts(1) [OF sn] by (auto simp: grows_def)
  then have l3: "On (''TAG:'' @ msg_id node') (OnRecv (length (promises s))) \<in> set (log s3)"
    using l2 by auto
  have l: "On (''TAG:'' @ msg_id node') (OnRecv (length (promises s))) \<in> set (log s')"
  proof (cases sr)
    case (Inl e)
    then show ?thesis using a l3 by simp
  next
    case (Inr u)
    then obtain res where "await env (length (promises s)) s3 evs1 = (res, s', evs')"
      using b by blast
    then have "\<exists>ext. log s' = log s3 @ ext"
      using await_later by (fastforce simp: later_def)
    then show ?thesis using l3 by auto
  qed
  show ?thesis
    using n l by (auto simp: set_id_def update_conv)
qed

theorem query_sets_id_witness:
  "no_id example_node
   \<and> map_of (attrs (fst (snd (query example_env example_node None opened
        [(5, WriteDone 1 None),
         (7, Emit ''TAG:12.34-1'' (NodeV (BinaryNode ''error'' [] None)))])))) ''id''
       = Some (uqTagId example_env @ dec (epoch opened))
   \<and> map_of (attrs (fst (snd (query example_env example_node None opened
        [(5, WriteDone 1 None),
         (7, Emit ''TAG:12.34-1'' (NodeV (BinaryNode ''error'' [] None)))])))) ''type''
       = map_of (attrs example_node) ''type''"
proof -
  have n: "no_id example_node" by (simp add: example_node_def no_id_def)
  note t = query_sets_id [OF query_example]
  have a: "map_of (attrs (BinaryNode ''iq'' [(''type'', ''get''), (''id'', ''12.34-1'')] None)) ''id''
        = Some (uqTagId example_env @ dec (epoch opened))"
    using t [THEN conjunct1] n by (rule mp)
  have "''type'' \<noteq> ''id''" by simp
  then have b: "map_of (attrs (BinaryNode ''iq'' [(''type'', ''get''), (''id'', ''12.34-1'')] None)) ''type''
        = map_of (attrs example_node) ''type''"
    using t [THEN conjunct2, THEN conjunct2, THEN conjunct1, THEN spec, of "''type''"]
    by (rule rev_mp)
  show ?thesis
    unfolding query_example fst_conv snd_conv using n a b by (intro conjI)
qed

subsection \<open>awaitNextMessage\<close>

lemma awaitNextMessage_start_open:
  assumes "isOpen s"
  shows "awaitNextMessage_start env sendMsg s =
     (length (promises s),
      s\<lparr>promises := promises s
           @ [\<lparr>kind = NextFrame, timer = connectTimeoutMs env, outcome = None\<rparr>]
           @ (case sendMsg of
                None \<Rightarrow> []
              | Some m \<Rightarrow> [\<lparr>kind = Write (Some (OnClose (length (promises s)))),
                            timer = connectTimeoutMs env, outcome = None\<rparr>]),
        listeners := listeners s @ [(''frame'', OnOpen (length (promises s))),
                                    (''close'', OnClose (length (promises s))),
                                    (''error'', OnClose (length (promises s)))],
        log := log s @ registers (length (promises s)) @ first_send env sendMsg s\<rparr>)"
  using assms
  by (cases sendMsg)
    (simp_all add: awaitNextMessage_start_def new_promise_def Let_def ws_on_def
      sendRawMessage_start_def registers_def first_send_def)


subsection \<open>The handshake\<close>

lemma validateConnection_eq:
  "validateConnection env s evs =
     (case awaitNextMessage env (Some (clientHello env))
             (s\<lparr>log := log s @ [LogInfo ''connected to WA'']\<rparr>) evs of
        (Inl e, s1, evs1) \<Rightarrow> (Inl e, s1, evs1)
      | (Inr result, s1, evs1) \<Rightarrow>
          (case decodeHandshake env result of
             Inl e \<Rightarrow> (Inl e, s1, evs1)
           | Inr handshake \<Rightarrow>
               (case processHandshake env (log s1 @ [LogTrace ''handshake recv from WA'']) handshake of
                  Inl e \<Rightarrow>
                    (Inl e,
                     s1\<lparr>log := log s1 @ [LogTrace ''handshake recv from WA'',
                                            ProcessHandshake handshake]\<rparr>,
                     evs1)
                | Inr keyEnc \<Rightarrow>
                    (let l5 = log s1 @ [LogTrace ''handshake recv from WA'',
                                        ProcessHandshake handshake] @ login_line env
                     in case sendRawMessage env
                               (clientFinish env keyEnc (encrypt env l5 (client_payload env)))
                               (s1\<lparr>log := l5 @ [Encrypt (client_payload env)]\<rparr>) evs1 of
                          (Inl e, s6, evs2) \<Rightarrow> (Inl e, s6, evs2)
                        | (Inr u, s6, evs2) \<Rightarrow>
                            (Inr Undefined,
                             s6\<lparr>log := log s6 @ [FinishInit, SetInterval 30000]\<rparr>, evs2)))))"
  unfolding validateConnection_def Let_def client_payload_def login_line_def
    startKeepAliveRequest_def
  by (auto split: prod.splits sum.splits option.splits)










subsection \<open>Cleaning up after a wait\<close>

lemma filter_remove_last: "filter P (remove_last x xs) = remove_last x (filter P xs)"
  by (simp add: remove_last_def rev_filter [symmetric] filter_remove1)

lemma remove_last_absent: "x \<notin> set xs \<Longrightarrow> remove_last x xs = xs"
  by (simp add: remove_last_def remove1_idem)

lemma own_ws_off: "own i (ws_off n cb s) = remove_last (n, cb) (own i s)"
  by (simp add: own_def filter_remove_last)

lemma own_ws_off_other: "owner cb \<noteq> i \<Longrightarrow> own i (ws_off n cb s) = own i s"
  unfolding own_ws_off by (rule remove_last_absent) (auto simp: own_def)

lemma own_cleanup_other: "j \<noteq> i \<Longrightarrow> own i (cleanup j k s) = own i s"
  by (cases k) (simp_all add: cleanup_def own_ws_off_other)

lemma own_promises [simp]: "own i (s\<lparr>promises := ps\<rparr>) = own i s"
  by (simp add: own_def)

lemma own_isOpen [simp]: "own i (s\<lparr>isOpen := b\<rparr>) = own i s"
  by (simp add: own_def)

lemma own_tick [simp]: "own i (tick dt s) = own i s"
  by (simp add: own_def tick_def)

lemma pending_isOpen [simp]: "pending (s\<lparr>isOpen := b\<rparr>) i = pending s i"
  by (simp add: pending_def)

lemma pending_finish: "pending (finish j r s) i \<longleftrightarrow> pending s i \<and> i \<noteq> j"
  by (auto simp: pending_def lookup_finish split: option.splits)

lemma kind_of_finish [simp]: "kind_of (finish j r s) i = kind_of s i"
  by (cases "lookup s j") (auto simp: kind_of_def lookup_finish)

lemma kind_of_tick [simp]: "kind_of (tick dt s) i = kind_of s i"
  by (simp add: kind_of_def lookup_def tick_def)

lemma kind_of_isOpen [simp]: "kind_of (s\<lparr>isOpen := b\<rparr>) i = kind_of s i"
  by (simp add: kind_of_def)





subsection \<open>Promises that a run does not settle, and deadlines\<close>

lemma run_lookup: "run False X s t \<Longrightarrow> p \<in> X \<Longrightarrow> lookup t p = lookup s p"
proof (induction rule: run.induct)
  case run_refl
  then show ?case by simp
next
  case (run_finish t j r)
  then have "j \<noteq> p" by auto
  then show ?case using run_finish by (simp add: lookup_finish)
next
  case (run_tick t dt)
  then show ?case by simp
next
  case (run_ready t b)
  then show ?case by simp
qed

lemma pending_lookup: "lookup t p = lookup s p \<Longrightarrow> pending t p = pending s p"
  by (simp add: pending_def)

lemma run_pending: "run T X s t \<Longrightarrow> p \<in> X \<Longrightarrow> pending t p = pending s p"
proof (induction rule: run.induct)
  case run_refl
  then show ?case by simp
next
  case (run_finish t j r)
  then have "j \<noteq> p" by auto
  then show ?case using run_finish by (auto simp: pending_finish)
next
  case (run_tick t dt)
  then show ?case by simp
next
  case (run_ready t b)
  then show ?case by simp
qed

lemma run_kind_of: "run T X s t \<Longrightarrow> kind_of t p = kind_of s p"
  by (induction rule: run.induct) simp_all

lemma catcher_kind_of: "kind_of t j = kind_of s j \<Longrightarrow> catcher t j = catcher s j"
  by (cases "lookup s j"; cases "lookup t j") (auto simp: catcher_def kind_of_def)

lemma run_catcher: "run T X s t \<Longrightarrow> catcher t j = catcher s j"
  using run_kind_of catcher_kind_of by blast

lemma run_listeners: "run T X s t \<Longrightarrow> set (listeners t) \<subseteq> set (listeners s)"
  using run_later by (auto simp: later_def)

lemma run_targeted: "run T X s t \<Longrightarrow> targeted t p \<Longrightarrow> targeted s p"
  using run_listeners [of T X s t] run_catcher [of T X s t]
  by (auto simp: targeted_def)

lemma timer_tick:
  "timer_of (tick dt s) p = (if pending s p then timer_of s p - dt else timer_of s p)"
  by (auto simp: timer_of_def pending_def lookup_def tick_def)

lemma timer_lookup: "lookup t p = lookup s p \<Longrightarrow> timer_of t p = timer_of s p"
  by (simp add: timer_of_def)

lemma sorted_expired: "sorted (map (\<lambda>i. (timer_of s i, i)) (expired dt s))"
  unfolding expired_def by (rule sorted_sort_key)

lemma settle_lone:
  assumes "pending s i" and "catcher s i = None"
  shows "outcome_of (settle env i r s) i = Some r"
  using assms by (simp add: settle_cases outcome_finish split: sum.splits)

lemma advance_timeout:
  assumes "pending s i" and "catcher s i = None" and "timer_of s i \<le> dt"
    and late: "\<forall>j cb. pending s j \<and> catcher s j = Some cb \<and> owner cb = i \<longrightarrow>
             (timer_of s i, i) < (timer_of s j, j)"
  shows "outcome_of (advance env dt s) i = Some (Inl (ErrV TimedOut))"
proof -
  let ?f = "\<lambda>j. settle env j (Inl (ErrV TimedOut))"
  have "i \<in> set (expired dt s)" using assms by (simp add: expired_set)
  then obtain as bs where e: "expired dt s = as @ i # bs" and nas: "i \<notin> set as"
    using split_list_first by fastforce
  have "sorted (map (\<lambda>i. (timer_of s i, i)) (as @ i # bs))"
    using sorted_expired [of s dt] e by simp
  then have le: "\<forall>a \<in> set as. (timer_of s a, a) \<le> (timer_of s i, i)"
    by (auto simp: sorted_append)
  have pa: "\<forall>a \<in> set as. pending s a"
    using expired_set [of _ dt s] e by auto
  have "\<forall>j \<in> set as. j \<notin> {i} \<and> (\<forall>cb. catcher s j = Some cb \<longrightarrow> owner cb \<notin> {i})"
  proof (intro ballI conjI allI impI)
    fix j assume "j \<in> set as"
    then show "j \<notin> {i}" using nas by auto
  next
    fix j cb assume j: "j \<in> set as" and c: "catcher s j = Some cb"
    show "owner cb \<notin> {i}"
    proof
      assume "owner cb \<in> {i}"
      then have "(timer_of s i, i) < (timer_of s j, j)"
        using late pa j c by auto
      moreover have "\<not> (timer_of s i, i) < (timer_of s j, j)"
        using le j by (intro leD) auto
      ultimately show False by simp
    qed
  qed
  then have r: "run False {i} s (fold ?f as s)"
    by (intro run_fold_settle run_refl)
  let ?u = "fold ?f as s"
  have "lookup ?u i = lookup s i" using r by (rule run_lookup) simp
  then have "pending ?u i" "catcher ?u i = None"
    using assms by (simp_all add: pending_def catcher_def)
  then have "outcome_of (?f i ?u) i = Some (Inl (ErrV TimedOut))"
    by (rule settle_lone)
  then have "outcome_of (fold ?f bs (?f i ?u)) i = Some (Inl (ErrV TimedOut))"
    using later_fold_settle later_outcome by blast
  then show ?thesis
    unfolding advance_def e by simp
qed

lemma advance_early:
  assumes "pending s p" and "dt < timer_of s p"
    and "\<forall>j cb. pending s j \<and> timer_of s j \<le> dt \<and> catcher s j = Some cb \<longrightarrow> owner cb \<noteq> p"
  shows "run True {p} s (advance env dt s)"
    and "timer_of (advance env dt s) p = timer_of s p - dt"
proof -
  let ?f = "\<lambda>j. settle env j (Inl (ErrV TimedOut))"
  have c: "\<forall>j. pending s j \<and> timer_of s j \<le> dt \<longrightarrow>
             j \<notin> {p} \<and> (\<forall>cb. catcher s j = Some cb \<longrightarrow> owner cb \<notin> {p})"
  proof (intro conjI allI impI)
    fix j assume "pending s j \<and> timer_of s j \<le> dt"
    then show "j \<notin> {p}" using assms(2) by auto
  next
    fix j cb assume "pending s j \<and> timer_of s j \<le> dt" and "catcher s j = Some cb"
    then have "owner cb \<noteq> p" using assms(3) by blast
    then show "owner cb \<notin> {p}" by simp
  qed
  show "run True {p} s (advance env dt s)"
    by (rule run_advance [OF TrueI c run_refl])
  have "\<forall>j \<in> set (expired dt s). j \<notin> {p} \<and> (\<forall>cb. catcher s j = Some cb \<longrightarrow> owner cb \<notin> {p})"
  proof
    fix j assume "j \<in> set (expired dt s)"
    then have "pending s j \<and> timer_of s j \<le> dt" by (simp add: expired_set)
    then show "j \<notin> {p} \<and> (\<forall>cb. catcher s j = Some cb \<longrightarrow> owner cb \<notin> {p})"
      using c by blast
  qed
  then have r: "run False {p} s (fold ?f (expired dt s) s)"
    by (intro run_fold_settle run_refl)
  then have l: "lookup (fold ?f (expired dt s) s) p = lookup s p"
    by (rule run_lookup) simp
  have "pending (fold ?f (expired dt s) s) p"
    using l assms(1) by (simp add: pending_def)
  moreover have "timer_of (fold ?f (expired dt s) s) p = timer_of s p"
    using l by (simp add: timer_of_def)
  ultimately show "timer_of (advance env dt s) p = timer_of s p - dt"
    unfolding advance_def by (simp add: timer_tick)
qed

subsection \<open>A bounded send\<close>

lemma lonely_run:
  assumes "lonely s p" and "run T {p} s t"
  shows "lonely t p"
proof -
  have "pending t p" using assms run_pending [OF assms(2), of p] by (simp add: lonely_def)
  moreover have "kind_of t p = Some (Write None)"
    using assms run_kind_of [OF assms(2), of p] by (simp add: lonely_def)
  moreover have "\<not> targeted t p"
    using assms run_targeted [OF assms(2), of p] by (auto simp: lonely_def)
  ultimately show ?thesis by (simp add: lonely_def)
qed

lemma lonely_catcher: "lonely s p \<Longrightarrow> catcher s p = None"
  by (cases "lookup s p") (auto simp: lonely_def kind_of_def catcher_def)

lemma lonely_untargeted:
  "lonely s p \<Longrightarrow> catcher s j = Some cb \<Longrightarrow> owner cb \<noteq> p"
  "lonely s p \<Longrightarrow> x \<in> set (listeners s) \<Longrightarrow> owner (snd x) \<noteq> p"
  by (auto simp: lonely_def targeted_def)

lemma lonely_timeout:
  assumes "lonely s p"
  shows "result_of (advance env (timer_of s p) s) p = Inl (ErrV TimedOut)"
proof -
  have "outcome_of (advance env (timer_of s p) s) p = Some (Inl (ErrV TimedOut))"
    using assms lonely_untargeted(1) [OF assms]
    by (intro advance_timeout) (auto simp: lonely_def lonely_catcher)
  then show ?thesis by (simp add: result_of_def)
qed

lemma lonely_advance:
  assumes "lonely s p" and "dt < timer_of s p"
  shows "lonely (advance env dt s) p" and "timer_of (advance env dt s) p = timer_of s p - dt"
proof -
  have p: "pending s p" using assms by (simp add: lonely_def)
  have c: "\<forall>j cb. pending s j \<and> timer_of s j \<le> dt \<and> catcher s j = Some cb \<longrightarrow> owner cb \<noteq> p"
    using lonely_untargeted(1) [OF assms(1)] by blast
  show "lonely (advance env dt s) p"
    using assms(1) advance_early(1) [OF p assms(2) c] by (rule lonely_run)
  show "timer_of (advance env dt s) p = timer_of s p - dt"
    using advance_early(2) [OF p assms(2) c] .
qed

lemma lonely_dispatch_other:
  assumes "lonely s p" and "\<forall>res. e \<noteq> WriteDone p res"
  shows "lonely (dispatch env e s) p" and "timer_of (dispatch env e s) p = timer_of s p"
proof -
  have a: "\<forall>x \<in> set (listeners s). owner (snd x) \<notin> {p}"
    using lonely_untargeted(2) [OF assms(1)] by auto
  have b: "\<forall>j r. e = WriteDone j r \<longrightarrow> j \<notin> {p} \<and> (\<forall>cb. catcher s j = Some cb \<longrightarrow> owner cb \<notin> {p})"
    using lonely_untargeted(1) [OF assms(1)] assms(2) by auto
  have r: "run False {p} s (dispatch env e s)"
    by (rule run_dispatch [OF a b run_refl])
  show "lonely (dispatch env e s) p" using assms(1) r by (rule lonely_run)
  have "lookup (dispatch env e s) p = lookup s p" using r by (rule run_lookup) simp
  then show "timer_of (dispatch env e s) p = timer_of s p" by (simp add: timer_of_def)
qed

lemma lonely_write_done:
  assumes "lonely s p"
  shows "outcome_of (dispatch env (WriteDone p res) s) p
           = Some (case res of None \<Rightarrow> Inr Undefined | Some e \<Rightarrow> Inl e)"
proof -
  obtain pr where pr: "lookup s p = Some pr" "kind pr = Write None"
    using assms by (auto simp: lonely_def kind_of_def)
  have p: "pending s p" using assms by (simp add: lonely_def)
  show ?thesis
    using pr settle_lone [OF p lonely_catcher [OF assms]]
    by (cases res) simp_all
qed

lemma await_settled: "outcome_of s i = Some r \<Longrightarrow> await env i s evs = (r, s, evs)"
  by (cases evs) auto

lemma await_write:
  "lonely s p \<Longrightarrow> fst (await env p s evs) = write_result (completion p (timer_of s p) evs)"
proof (induction evs arbitrary: s)
  case Nil
  then have "outcome_of s p = None" by (simp add: lonely_def pending_outcome)
  then show ?case using lonely_timeout [OF Nil] by (simp add: Let_def)
next
  case (Cons x evs)
  obtain dt e where x: "x = (dt, e)" by (cases x)
  have none: "outcome_of s p = None" using Cons.prems by (simp add: lonely_def pending_outcome)
  show ?case
  proof (cases "timer_of s p \<le> dt")
    case True
    then show ?thesis
      using none lonely_timeout [OF Cons.prems] by (simp add: x Let_def)
  next
    case False
    then have lt: "dt < timer_of s p" by simp
    let ?u = "advance env dt s"
    have u: "lonely ?u p" "timer_of ?u p = timer_of s p - dt"
      using lonely_advance [OF Cons.prems lt] by simp_all
    have step: "await env p s (x # evs) = await env p (dispatch env e ?u) evs"
      using none False by (simp add: x)
    show ?thesis
    proof (cases "\<exists>res. e = WriteDone p res")
      case True
      then obtain res where e: "e = WriteDone p res" by blast
      have "outcome_of (dispatch env e ?u) p
              = Some (case res of None \<Rightarrow> Inr Undefined | Some e \<Rightarrow> Inl e)"
        unfolding e using u(1) by (rule lonely_write_done)
      then have "fst (await env p (dispatch env e ?u) evs)
              = (case res of None \<Rightarrow> Inr Undefined | Some e \<Rightarrow> Inl e)"
        by (simp add: await_settled)
      then show ?thesis
        unfolding step using False by (cases res) (simp_all add: x e)
    next
      case other: False
      then have o: "\<forall>res. e \<noteq> WriteDone p res" by simp
      have v: "lonely (dispatch env e ?u) p" "timer_of (dispatch env e ?u) p = timer_of s p - dt"
        using lonely_dispatch_other [OF u(1) o] u(2) by simp_all
      have c: "completion p (timer_of s p) (x # evs) = completion p (timer_of s p - dt) evs"
        using False o by (cases e) (simp_all add: x)
      show ?thesis
        unfolding step c using Cons.IH [OF v(1)] v(2) by simp
    qed
  qed
qed

lemma wf_catcher: "wf s \<Longrightarrow> catcher s j = Some cb \<Longrightarrow> owner cb < length (promises s)"
proof -
  assume w: "wf s" and c: "catcher s j = Some cb"
  then obtain pr where pr: "lookup s j = Some pr" "kind pr = Write (Some cb)"
    by (auto simp: catcher_def split: option.splits pkind.splits)
  then have "pr \<in> set (promises s)"
    by (auto simp: lookup_def split: if_splits)
  then show ?thesis using w pr by (auto simp: wf_def list_all_iff)
qed

lemma wf_listener: "wf s \<Longrightarrow> x \<in> set (listeners s) \<Longrightarrow> owner (snd x) < length (promises s)"
  by (auto simp: wf_def list_all_iff)

lemma lookup_append:
  "lookup (s\<lparr>promises := promises s @ ps\<rparr>) j =
     (if j < length (promises s) then lookup s j
      else if j - length (promises s) < length ps then Some (ps ! (j - length (promises s)))
      else None)"
  by (auto simp: lookup_def nth_append)

lemma catcher_append_old:
  "j < length (promises s) \<Longrightarrow> catcher (s\<lparr>promises := promises s @ ps, log := l\<rparr>) j = catcher s j"
  by (simp add: catcher_def lookup_def nth_append)

lemma catcher_beyond: "length (promises s) \<le> j \<Longrightarrow> catcher s j = None"
  by (simp add: catcher_def lookup_def)

lemma wf_opened: "wf opened"
  by (simp add: wf_def opened_def initial_def)

text \<open>
  C5. On a transport that is not open, \<^verbatim>\<open>sendRawMessage\<close> fails at once with
  ConnectionClosed and leaves everything as it was: nothing is encoded, sent or kept
  for later. On an open transport the bytes go through \<^verbatim>\<open>noise.encodeFrame\<close> and the
  frame is handed to the transport's send. The result is decided by the transport's
  answer to that write within \<^verbatim>\<open>connectTimeoutMs\<close>: success, the write's error, or, when
  no answer comes within the bound, the Timeout error.
\<close>

theorem sendRawMessage_outcome:
  assumes "sendRawMessage env data s evs = (r, s', evs')"
  shows "(\<not> isOpen s \<longrightarrow> r = Inl (ErrV ConnectionClosed) \<and> s' = s \<and> evs' = evs)
       \<and> (isOpen s \<longrightarrow>
            (\<exists>offs. log s' = log s @ [EncodeFrame data, Send (encodeFrame env (log s) data)] @ offs
                    \<and> list_all is_Off offs))
       \<and> (isOpen s \<and> wf s \<longrightarrow>
            r = write_result (completion (length (promises s)) (connectTimeoutMs env) evs))"
proof -
  have A: "r = Inl (ErrV ConnectionClosed) \<and> s' = s \<and> evs' = evs" if "\<not> isOpen s"
    using sendRawMessage_facts(4) [OF assms] that by simp
  have B: "\<exists>offs. log s' = log s @ [EncodeFrame data, Send (encodeFrame env (log s) data)] @ offs
                    \<and> list_all is_Off offs" if "isOpen s"
    using sendRawMessage_facts(1) [OF assms] that by (simp add: grows_def send_trace_def)
  have C: "r = write_result (completion (length (promises s)) (connectTimeoutMs env) evs)"
    if a: "isOpen s \<and> wf s"
  proof -
    let ?p = "length (promises s)"
    let ?t = "s\<lparr>promises := promises s @ [\<lparr>kind = Write None, timer = connectTimeoutMs env, outcome = None\<rparr>],
          log := log s @ [EncodeFrame data, Send (encodeFrame env (log s) data)]\<rparr>"
    have aw: "await env ?p ?t evs = (r, s', evs')"
      using assms a by (simp add: sendRawMessage_def sendRawMessage_start_open)
    have lk: "lookup ?t ?p = Some \<lparr>kind = Write None, timer = connectTimeoutMs env, outcome = None\<rparr>"
      by (simp add: lookup_def)
    have "\<not> targeted ?t ?p"
    proof
      assume "targeted ?t ?p"
      then consider x where "x \<in> set (listeners s)" "owner (snd x) = ?p"
        | j cb where "catcher ?t j = Some cb" "owner cb = ?p"
        by (auto simp: targeted_def)
      then show False
      proof cases
        case 1
        then show False using wf_listener [of s x] a by simp
      next
        case 2
        show False
        proof (cases "j < ?p")
          case True
          then have "catcher s j = Some cb" using 2 by (simp add: catcher_append_old)
          then show False using wf_catcher [of s j cb] a 2 by simp
        next
          case False
          then have "catcher ?t j = None"
            by (cases "j = ?p") (simp_all add: catcher_def lookup_def)
          then show False using 2 by simp
        qed
      qed
    qed
    then have "lonely ?t ?p"
      using lk by (simp add: lonely_def pending_def kind_of_def)
    then have "fst (await env ?p ?t evs) = write_result (completion ?p (timer_of ?t ?p) evs)"
      by (rule await_write)
    moreover have "timer_of ?t ?p = connectTimeoutMs env"
      using lk by (simp add: timer_of_def)
    ultimately show ?thesis using aw by simp
  qed
  show ?thesis using A B C by blast
qed

theorem sendRawMessage_outcome_witness:
  "isOpen opened \<and> wf opened
   \<and> fst (sendRawMessage example_env [1, 2] opened [(20000, WriteDone 0 None)])
       = Inl (ErrV TimedOut)
   \<and> fst (sendRawMessage example_env [1, 2] opened
            [(5, Emit ''frame'' (Bytes [])), (19000, WriteDone 0 None)])
       = Inr Undefined
   \<and> fst (sendRawMessage example_env [1, 2] initial [(5, WriteDone 0 None)])
       = Inl (ErrV ConnectionClosed)"
proof -
  have o: "isOpen opened" by (simp add: opened_def)
  have c: "\<not> isOpen initial" by (simp add: initial_def)
  have l: "length (promises opened) = 0" "connectTimeoutMs example_env = 20000"
    by (simp_all add: opened_def initial_def example_env_def)
  have t: "fst (sendRawMessage env d s evs)
      = write_result (completion (length (promises s)) (connectTimeoutMs env) evs)"
    if "isOpen s" "wf s" for env d s evs
    using sendRawMessage_outcome [of env d s evs "fst (sendRawMessage env d s evs)"
        "fst (snd (sendRawMessage env d s evs))" "snd (snd (sendRawMessage env d s evs))"] that
    by simp
  have u: "fst (sendRawMessage env d s evs) = Inl (ErrV ConnectionClosed)"
    if "\<not> isOpen s" for env d s evs
    using sendRawMessage_outcome [of env d s evs "fst (sendRawMessage env d s evs)"
        "fst (snd (sendRawMessage env d s evs))" "snd (snd (sendRawMessage env d s evs))"] that
    by simp
  show ?thesis
    using o wf_opened t [OF o wf_opened, of example_env] u [OF c] by (simp add: l)
qed

subsection \<open>The states the closures can be in\<close>

text \<open>
  The initial state is well-formed, and every closure of the socket leaves a well-formed
  state well-formed: the listeners and chained callbacks it adds belong to the promise it
  has just made, and a run of the event loop adds none.
\<close>

lemma wf_iff:
  "wf s \<longleftrightarrow>
     (\<forall>x \<in> set (listeners s). owner (snd x) < length (promises s)) \<and>
     (\<forall>j cb. catcher s j = Some cb \<longrightarrow> owner cb < length (promises s))"
proof
  assume "wf s"
  then show "(\<forall>x \<in> set (listeners s). owner (snd x) < length (promises s)) \<and>
     (\<forall>j cb. catcher s j = Some cb \<longrightarrow> owner cb < length (promises s))"
    using wf_listener wf_catcher by blast
next
  assume a: "(\<forall>x \<in> set (listeners s). owner (snd x) < length (promises s)) \<and>
     (\<forall>j cb. catcher s j = Some cb \<longrightarrow> owner cb < length (promises s))"
  have "\<forall>p \<in> set (promises s). case kind p of Write (Some cb) \<Rightarrow> owner cb < length (promises s) | _ \<Rightarrow> True"
  proof
    fix p assume "p \<in> set (promises s)"
    then obtain j where j: "j < length (promises s)" "promises s ! j = p"
      by (auto simp: in_set_conv_nth)
    show "case kind p of Write (Some cb) \<Rightarrow> owner cb < length (promises s) | _ \<Rightarrow> True"
    proof (cases "kind p")
      case (Write c)
      then have "catcher s j = c" using j by (simp add: catcher_def lookup_def)
      then show ?thesis using a Write by (cases c) auto
    qed simp_all
  qed
  then show "wf s" using a by (auto simp: wf_def list_all_iff)
qed

lemma wf_initial: "wf initial"
  by (simp add: wf_def initial_def)

lemma wf_later: "wf s \<Longrightarrow> later s t \<Longrightarrow> wf t"
  unfolding wf_iff
  using later_length [of s t] later_catcher [of s t]
  by (auto simp: later_def)

lemma wf_cong: "listeners t = listeners s \<Longrightarrow> promises t = promises s \<Longrightarrow> wf t = wf s"
  by (simp add: wf_iff catcher_def lookup_def)

lemma wf_fields [simp]:
  "wf (s\<lparr>log := l\<rparr>) = wf s" "wf (s\<lparr>epoch := e\<rparr>) = wf s" "wf (s\<lparr>isOpen := b\<rparr>) = wf s"
  by (rule wf_cong; simp)+

lemma wf_await: "await env i s evs = (r, s', evs') \<Longrightarrow> wf s \<Longrightarrow> wf s'"
  using await_later wf_later by blast

lemma wf_new:
  assumes "wf s"
    and "\<forall>x \<in> set ls. owner (snd x) \<le> length (promises s)"
    and "\<forall>cb. k = Write (Some cb) \<longrightarrow> owner cb \<le> length (promises s)"
    and sub: "set ls' \<subseteq> set (listeners s) \<union> set ls"
  shows "wf (s\<lparr>promises := promises s @ [\<lparr>kind = k, timer = ms, outcome = None\<rparr>],
             listeners := ls' \<rparr>)"
proof -
  let ?t = "s\<lparr>promises := promises s @ [\<lparr>kind = k, timer = ms, outcome = None\<rparr>], listeners := ls'\<rparr>"
  have c: "owner cb < Suc (length (promises s))" if "catcher ?t j = Some cb" for j cb
  proof (cases "j < length (promises s)")
    case True
    then have "catcher s j = Some cb"
      using that by (simp add: catcher_def lookup_def nth_append)
    then show ?thesis using wf_catcher [OF assms(1)] by fastforce
  next
    case False
    then have "j = length (promises s)"
      using that by (auto simp: catcher_def lookup_def split: if_splits)
    then have "k = Write (Some cb)"
      using that by (auto simp: catcher_def lookup_def split: pkind.splits)
    then show ?thesis using assms(3) by auto
  qed
  have l: "owner (snd x) < Suc (length (promises s))" if "x \<in> set ls'" for x
    using that sub wf_listener [OF assms(1)] assms(2)
    by fastforce
  show ?thesis unfolding wf_iff using c l by auto
qed

lemma wf_sendRawMessage_start:
  assumes "wf s" and "\<forall>cb. c = Some cb \<longrightarrow> owner cb < length (promises s)"
  shows "wf (snd (sendRawMessage_start env d c s))"
proof (cases "isOpen s")
  case False
  then show ?thesis using assms by (simp add: sendRawMessage_start_closed)
next
  case True
  have "wf (s\<lparr>promises := promises s @ [\<lparr>kind = Write c, timer = connectTimeoutMs env, outcome = None\<rparr>],
             listeners := listeners s\<rparr>)"
    using assms by (intro wf_new [where ls = "[]"]) auto
  moreover have "wf (snd (sendRawMessage_start env d c s)) =
      wf (s\<lparr>promises := promises s @ [\<lparr>kind = Write c, timer = connectTimeoutMs env, outcome = None\<rparr>],
             listeners := listeners s\<rparr>)"
    using True by (intro wf_cong) (simp_all add: sendRawMessage_start_open)
  ultimately show ?thesis by simp
qed

lemma wf_sendRawMessage:
  "sendRawMessage env d s evs = (r, s', evs') \<Longrightarrow> wf s \<Longrightarrow> wf s'"
  using wf_sendRawMessage_start [of s None env d] wf_await
  by (auto simp: sendRawMessage_def split: prod.splits sum.splits)

lemma wf_sendNode: "sendNode env f s evs = (r, s', evs') \<Longrightarrow> wf s \<Longrightarrow> wf s'"
  using wf_sendRawMessage by (auto simp: sendNode_eq split: sum.splits)

lemma wf_waitForMessage_start: "wf s \<Longrightarrow> wf (snd (waitForMessage_start env m t s))"
proof -
  assume w: "wf s"
  let ?i = "length (promises s)"
  let ?ls = "[(''TAG:'' @ m, OnRecv ?i), (''close'', OnErr ?i)]"
  have "wf (s\<lparr>promises := promises s @ [\<lparr>kind = Tagged m,
               timer = (case t of None \<Rightarrow> defaultQueryTimeoutMs env | Some t \<Rightarrow> t), outcome = None\<rparr>],
             listeners := remove_last (''error'', OnErr ?i) (listeners s @ ?ls)\<rparr>)"
    using w set_remove_last [of "(''error'', OnErr ?i)" "listeners s @ ?ls"]
    by (intro wf_new [where ls = ?ls]) auto
  moreover have "wf (snd (waitForMessage_start env m t s)) =
      wf (s\<lparr>promises := promises s @ [\<lparr>kind = Tagged m,
               timer = (case t of None \<Rightarrow> defaultQueryTimeoutMs env | Some t \<Rightarrow> t), outcome = None\<rparr>],
             listeners := remove_last (''error'', OnErr ?i) (listeners s @ ?ls)\<rparr>)"
    by (intro wf_cong) (simp_all add: waitForMessage_start_eq)
  ultimately show ?thesis by simp
qed

lemma wf_waitForMessage:
  "waitForMessage env m t s evs = (r, s', evs') \<Longrightarrow> wf s \<Longrightarrow> wf s'"
  using wf_waitForMessage_start [of s env m t] wf_await
  by (auto simp: waitForMessage_def split: prod.splits)

lemma wf_awaitNextMessage:
  assumes "awaitNextMessage env sendMsg s evs = (r, s', evs')" and "wf s"
  shows "wf s'"
proof (cases "isOpen s")
  case False
  then show ?thesis using assms by (simp add: awaitNextMessage_def)
next
  case True
  let ?i = "length (promises s)"
  let ?ls = "[(''frame'', OnOpen ?i), (''close'', OnClose ?i), (''error'', OnClose ?i)]"
  let ?t1 = "s\<lparr>promises := promises s @ [\<lparr>kind = NextFrame, timer = connectTimeoutMs env, outcome = None\<rparr>],
               listeners := listeners s @ ?ls\<rparr>"
  have w1: "wf ?t1" using assms(2) by (intro wf_new [where ls = ?ls]) auto
  obtain t where st: "awaitNextMessage_start env sendMsg s = (?i, t)" and wt: "wf t"
  proof (cases sendMsg)
    case None
    have e: "awaitNextMessage_start env sendMsg s = (?i, snd (awaitNextMessage_start env sendMsg s))"
      using awaitNextMessage_start_open [OF True, of env sendMsg] by simp
    have "wf (snd (awaitNextMessage_start env sendMsg s)) = wf ?t1"
      using None by (intro wf_cong) (simp_all add: awaitNextMessage_start_open [OF True])
    then show ?thesis using that [OF e] w1 by simp
  next
    case (Some m)
    let ?t2 = "?t1\<lparr>promises := promises ?t1 @ [\<lparr>kind = Write (Some (OnClose ?i)),
                 timer = connectTimeoutMs env, outcome = None\<rparr>], listeners := listeners ?t1\<rparr>"
    have w2: "wf ?t2"
      by (rule wf_new [where ls = "[]", OF w1]) auto
    have e: "awaitNextMessage_start env sendMsg s = (?i, snd (awaitNextMessage_start env sendMsg s))"
      using awaitNextMessage_start_open [OF True, of env sendMsg] by simp
    have "wf (snd (awaitNextMessage_start env sendMsg s)) = wf ?t2"
      using Some by (intro wf_cong) (simp_all add: awaitNextMessage_start_open [OF True])
    then show ?thesis using that [OF e] w2 by simp
  qed
  then have "await env ?i t evs = (r, s', evs')"
    using assms True by (simp add: awaitNextMessage_def)
  then show ?thesis using wt by (rule wf_await)
qed

lemma wf_query:
  assumes "query env node timeoutMs s evs = (r, node', s', evs')" and "wf s"
  shows "wf s'"
proof -
  from assms(1) obtain s1 s2 sr s3 evs1 where
    s1: "s1 = (if no_id node then s\<lparr>epoch := js_succ (epoch s)\<rparr> else s)"
    and s2: "s2 = snd (waitForMessage_start env (msg_id node') timeoutMs s1)"
    and sn: "sendNode env (NodeV node') s2 evs = (sr, s3, evs1)"
    and a: "\<forall>e. sr = Inl e \<longrightarrow> r = Inl e \<and> s' = s3 \<and> evs' = evs1"
    and b: "\<forall>u. sr = Inr u \<longrightarrow>
       (\<exists>res. await env (length (promises s)) s3 evs1 = (res, s', evs') \<and> r = verdict env res)"
    using query_run [OF assms(1)] by (elim exE conjE) (rule that)
  have "wf s1" using assms(2) s1 by simp
  then have "wf s2" unfolding s2 by (rule wf_waitForMessage_start)
  then have w3: "wf s3" using sn wf_sendNode by blast
  show ?thesis
  proof (cases sr)
    case (Inl e)
    then show ?thesis using a w3 by simp
  next
    case (Inr u)
    then show ?thesis using b w3 wf_await by blast
  qed
qed

lemma wf_validateConnection:
  assumes "validateConnection env s evs = (r, s', evs')" and "wf s"
  shows "wf s'"
proof -
  let ?s0 = "s\<lparr>log := log s @ [LogInfo ''connected to WA'']\<rparr>"
  obtain r1 s1 evs1 where a: "awaitNextMessage env (Some (clientHello env)) ?s0 evs = (r1, s1, evs1)"
    by (cases "awaitNextMessage env (Some (clientHello env)) ?s0 evs") auto
  have w1: "wf s1" using wf_awaitNextMessage [OF a] assms(2) by simp
  have "wf s6" if "sendRawMessage env d (s1\<lparr>log := l\<rparr>) evs1 = (r2, s6, evs2)" for d l r2 s6 evs2
    using wf_sendRawMessage [OF that] w1 by simp
  then show ?thesis
    using assms(1) w1 unfolding validateConnection_eq a
    by (auto simp: Let_def split: sum.splits prod.splits)
qed

subsection \<open>The race of awaitNextMessage\<close>

lemma own_fresh:
  assumes "wf s"
  shows "filter (\<lambda>(n, cb). owner cb = length (promises s)) (listeners s) = []"
proof -
  have "\<forall>x \<in> set (listeners s). owner (snd x) \<noteq> length (promises s)"
    using wf_listener [OF assms] by fastforce
  then show ?thesis by (auto simp: filter_empty_conv)
qed





subsection \<open>The deadlines of query\<close>

lemma own_finish_other: "j \<noteq> w \<Longrightarrow> own w (finish j r s) = own w s"
  by (auto simp: finish_def own_cleanup_other split: option.splits)

lemma run_own: "run T X s t \<Longrightarrow> w \<in> X \<Longrightarrow> own w t = own w s"
proof (induction rule: run.induct)
  case run_refl
  show ?case by simp
next
  case (run_finish t j r)
  then have "j \<noteq> w" by auto
  then show ?case using run_finish by (simp add: own_finish_other)
next
  case (run_tick t dt)
  then show ?case by simp
next
  case (run_ready t b)
  then show ?case by simp
qed

lemma hearing_run:
  assumes "hearing s w m" and "run T {w} s t"
  shows "hearing t w m"
proof -
  have "pending t w" using assms run_pending [OF assms(2), of w] by (simp add: hearing_def)
  moreover have "kind_of t w = Some (Tagged m)"
    using assms run_kind_of [OF assms(2), of w] by (simp add: hearing_def)
  moreover have "own w t = [(''TAG:'' @ m, OnRecv w), (''close'', OnErr w)]"
    using assms run_own [OF assms(2), of w] by (simp add: hearing_def)
  moreover have "\<forall>j cb. catcher t j = Some cb \<longrightarrow> owner cb \<noteq> w"
    using assms(1) run_catcher [OF assms(2)] by (simp add: hearing_def)
  ultimately show ?thesis by (simp add: hearing_def)
qed

lemma hearing_catcher: "hearing s w m \<Longrightarrow> catcher s w = None"
  by (cases "lookup s w") (auto simp: hearing_def kind_of_def catcher_def)

lemma hearing_untargeted: "hearing s w m \<Longrightarrow> catcher s j = Some cb \<Longrightarrow> owner cb \<noteq> w"
  by (simp add: hearing_def)

lemma hearing_timeout:
  assumes "hearing s w m" and "timer_of s w \<le> dt"
  shows "outcome_of (advance env dt s) w = Some (Inl (ErrV TimedOut))"
  using assms hearing_untargeted [OF assms(1)]
  by (intro advance_timeout) (auto simp: hearing_def hearing_catcher)

lemma hearing_advance:
  assumes "hearing s w m" and "dt < timer_of s w"
  shows "hearing (advance env dt s) w m" and "timer_of (advance env dt s) w = timer_of s w - dt"
proof -
  have p: "pending s w" using assms by (simp add: hearing_def)
  have c: "\<forall>j cb. pending s j \<and> timer_of s j \<le> dt \<and> catcher s j = Some cb \<longrightarrow> owner cb \<noteq> w"
    using hearing_untargeted [OF assms(1)] by blast
  show "hearing (advance env dt s) w m"
    using assms(1) advance_early(1) [OF p assms(2) c] by (rule hearing_run)
  show "timer_of (advance env dt s) w = timer_of s w - dt"
    using advance_early(2) [OF p assms(2) c] .
qed

lemma hearing_listener:
  assumes "hearing s w m" and "x \<in> set (listeners s)" and "owner (snd x) = w"
  shows "x = (''TAG:'' @ m, OnRecv w) \<or> x = (''close'', OnErr w)"
proof -
  have "x \<in> set (own w s)" using assms(2,3) by (auto simp: own_def)
  then show ?thesis using assms(1) by (simp add: hearing_def)
qed

lemma fold_invoke_filter:
  "fold (\<lambda>(n, cb) u. if n = name then invoke env cb arg u else u) ls t
     = fold (\<lambda>(n, cb) u. if n = name then invoke env cb arg u else u)
         (filter (\<lambda>x. fst x = name) ls) t"
  by (induction ls arbitrary: t) auto

lemma hearing_dispatch_other:
  assumes "hearing s w m" and "\<forall>v. e \<noteq> Emit (''TAG:'' @ m) v" and "\<forall>v. e \<noteq> Emit ''close'' v"
  shows "hearing (dispatch env e s) w m" and "timer_of (dispatch env e s) w = timer_of s w"
proof -
  have r: "run False {w} s (dispatch env e s)"
  proof (cases e)
    case (Emit name arg)
    then have n: "name \<noteq> ''TAG:'' @ m" "name \<noteq> ''close''" using assms(2,3) by auto
    have "\<forall>x \<in> set (filter (\<lambda>x. fst x = name) (listeners s)). owner (snd x) \<notin> {w}"
    proof (intro ballI notI)
      fix x assume x: "x \<in> set (filter (\<lambda>x. fst x = name) (listeners s))"
        and "owner (snd x) \<in> {w}"
      then have "x = (''TAG:'' @ m, OnRecv w) \<or> x = (''close'', OnErr w)"
        using hearing_listener [OF assms(1), of x] by simp
      then show False using x n by auto
    qed
    then have "run False {w} s
        (fold (\<lambda>(n, cb) u. if n = name then invoke env cb arg u else u)
           (filter (\<lambda>x. fst x = name) (listeners s)) s)"
      using run_refl by (rule run_fold_invoke)
    then show ?thesis
      unfolding Emit dispatch.simps emit_def fold_invoke_filter [of name env arg "listeners s" s] .
  next
    case (WriteDone j res)
    show ?thesis
    proof (cases "j = w")
      case True
      have "kind_of s w = Some (Tagged m)" using assms(1) by (simp add: hearing_def)
      then have "dispatch env e s = s"
        unfolding WriteDone True
        by (cases res) (auto simp: kind_of_def split: option.splits)
      then show ?thesis by (simp add: run_refl)
    next
      case False
      have "run False {w} s (settle env j r s)" for r
        using False hearing_untargeted [OF assms(1)] by (intro run_settle run_refl) auto
      then show ?thesis
        unfolding WriteDone
        by (cases res) (auto simp: run_refl split: option.splits pkind.splits)
    qed
  next
    case (ReadyState b)
    then show ?thesis by (simp add: run_ready run_refl)
  qed
  show "hearing (dispatch env e s) w m" using assms(1) r by (rule hearing_run)
  have "lookup (dispatch env e s) w = lookup s w" using r by (rule run_lookup) simp
  then show "timer_of (dispatch env e s) w = timer_of s w" by (simp add: timer_of_def)
qed

lemma fold_emit_settles:
  assumes "outcome_of t i = Some r \<or> (pending t i \<and> (name, c) \<in> set ls)"
    and "\<forall>x \<in> set ls. fst x = name \<and> owner (snd x) = i \<longrightarrow> snd x = c"
    and "\<forall>u. invoke env c v u = finish i r u"
  shows "outcome_of (fold (\<lambda>(n, cb) u. if n = name then invoke env cb v u else u) ls t) i
           = Some r"
  using assms(1,2)
proof (induction ls arbitrary: t)
  case Nil
  then show ?case by simp
next
  case (Cons x ls)
  obtain n cb where x: "x = (n, cb)" by (cases x)
  let ?t' = "if n = name then invoke env cb v t else t"
  have "outcome_of ?t' i = Some r \<or> (pending ?t' i \<and> (name, c) \<in> set ls)"
  proof (cases "outcome_of t i = Some r")
    case True
    have "later t (invoke env cb v t)"
      by (rule run_later [OF run_invoke [OF _ run_refl, of cb "{}" True]]) simp
    then have "later t ?t'" by (simp add: later_refl)
    then have "outcome_of ?t' i = Some r" using True by (rule later_outcome)
    then show ?thesis by (rule disjI1)
  next
    case False
    then have p: "pending t i" and m: "(name, c) \<in> set (x # ls)"
      using Cons.prems(1) by auto
    show ?thesis
    proof (cases "n = name \<and> owner cb = i")
      case True
      then have "cb = c" using Cons.prems(2) x by simp
      then show ?thesis using True p assms(3) by (simp add: outcome_finish)
    next
      case False
      then have "x \<noteq> (name, c) \<or> owner c \<noteq> i" using x by auto
      moreover have "owner c = i"
      proof (rule ccontr)
        assume o: "owner c \<noteq> i"
        have "run True {i} t (invoke env c v t)"
          using o by (intro run_invoke run_refl) simp
        then have "pending (invoke env c v t) i = pending t i"
          by (rule run_pending) simp
        then have "pending (finish i r t) i" using p assms(3) by simp
        then show False by (simp add: pending_finish)
      qed
      ultimately have "x \<noteq> (name, c)" by simp
      then have ml: "(name, c) \<in> set ls" using m by simp
      have "pending ?t' i"
      proof (cases "n = name")
        case True
        then have "owner cb \<noteq> i" using False by simp
        then have "run True {i} t (invoke env cb v t)"
          by (intro run_invoke run_refl) simp
        then have "pending (invoke env cb v t) i = pending t i"
          by (rule run_pending) simp
        then show ?thesis using True p by simp
      next
        case False
        then show ?thesis using p by simp
      qed
      then show ?thesis using ml by simp
    qed
  qed
  moreover have "\<forall>x \<in> set ls. fst x = name \<and> owner (snd x) = i \<longrightarrow> snd x = c"
    using Cons.prems(2) by simp
  ultimately show ?case using Cons.IH [of ?t'] by (simp add: x)
qed

lemma hearing_emit:
  assumes "hearing s w m" and "(name, c) \<in> set (own w s)"
    and "\<forall>u. invoke env c v u = finish w r u"
    and "\<forall>x \<in> set (own w s). fst x = name \<longrightarrow> snd x = c"
  shows "outcome_of (dispatch env (Emit name v) s) w = Some r"
proof -
  have s: "set (own w s) = {x \<in> set (listeners s). owner (snd x) = w}"
    by (auto simp: own_def)
  have p: "pending s w" using assms(1) by (simp add: hearing_def)
  have m: "(name, c) \<in> set (listeners s)" using assms(2) s by blast
  have a: "\<forall>x \<in> set (listeners s). fst x = name \<and> owner (snd x) = w \<longrightarrow> snd x = c"
    using assms(4) s by blast
  have "outcome_of (emit env name v s) w = Some r"
    unfolding emit_def
    by (rule fold_emit_settles [OF disjI2 [OF conjI [OF p m]] a assms(3)])
  then show ?thesis by simp
qed

lemma hearing_tag:
  assumes "hearing s w m"
  shows "outcome_of (dispatch env (Emit (''TAG:'' @ m) v) s) w = Some (Inr v)"
  using assms
  by (intro hearing_emit [OF assms, where c = "OnRecv w"]) (auto simp: hearing_def)

lemma hearing_close:
  assumes "hearing s w m"
  shows "outcome_of (dispatch env (Emit ''close'' v) s) w
           = Some (Inl (if truthy v then v else ErrV ConnectionClosed))"
  using assms
  by (intro hearing_emit [OF assms, where c = "OnErr w"]) (auto simp: hearing_def)

lemma hearing_none: "hearing s w m \<Longrightarrow> outcome_of s w = None"
  by (simp add: hearing_def pending_outcome)

lemma heard_step:
  assumes "dt < ms" and "\<forall>v. e \<noteq> Emit (''TAG:'' @ m) v" and "\<forall>v. e \<noteq> Emit ''close'' v"
  shows "heard m ms ((dt, e) # evs) = heard m (ms - dt) evs"
  using assms by (cases e) auto

lemma await_heard:
  "hearing s w m \<Longrightarrow> fst (await env w s evs) = heard m (timer_of s w) evs"
proof (induction evs arbitrary: s)
  case Nil
  have "outcome_of (advance env (timer_of s w) s) w = Some (Inl (ErrV TimedOut))"
    using Nil by (rule hearing_timeout) simp
  then show ?case using hearing_none [OF Nil] by (simp add: Let_def result_of_def)
next
  case (Cons x evs)
  obtain dt e where x: "x = (dt, e)" by (cases x)
  note none = hearing_none [OF Cons.prems]
  show ?case
  proof (cases "timer_of s w \<le> dt")
    case True
    have "outcome_of (advance env (timer_of s w) s) w = Some (Inl (ErrV TimedOut))"
      using Cons.prems by (rule hearing_timeout) simp
    then show ?thesis using none True by (simp add: x Let_def result_of_def)
  next
    case False
    then have lt: "dt < timer_of s w" by simp
    let ?u = "advance env dt s"
    have u: "hearing ?u w m" "timer_of ?u w = timer_of s w - dt"
      using hearing_advance [OF Cons.prems lt] by simp_all
    have step: "await env w s (x # evs) = await env w (dispatch env e ?u) evs"
      using none False by (simp add: x)
    consider v where "e = Emit (''TAG:'' @ m) v" | v where "e = Emit ''close'' v"
      | "\<forall>v. e \<noteq> Emit (''TAG:'' @ m) v" "\<forall>v. e \<noteq> Emit ''close'' v"
      by blast
    then show ?thesis
    proof cases
      case 1
      have "outcome_of (dispatch env e ?u) w = Some (Inr v)"
        unfolding 1 using u(1) by (rule hearing_tag)
      then have "fst (await env w (dispatch env e ?u) evs) = Inr v"
        by (simp add: await_settled)
      then show ?thesis unfolding step using False by (simp add: x 1)
    next
      case 2
      have "outcome_of (dispatch env e ?u) w
          = Some (Inl (if truthy v then v else ErrV ConnectionClosed))"
        unfolding 2 using u(1) by (rule hearing_close)
      then have "fst (await env w (dispatch env e ?u) evs)
          = Inl (if truthy v then v else ErrV ConnectionClosed)"
        by (simp add: await_settled)
      then show ?thesis unfolding step using False by (simp add: x 2)
    next
      case 3
      have v: "hearing (dispatch env e ?u) w m" "timer_of (dispatch env e ?u) w = timer_of s w - dt"
        using hearing_dispatch_other [OF u(1) 3] u(2) by simp_all
      have c: "heard m (timer_of s w) (x # evs) = heard m (timer_of s w - dt) evs"
        unfolding x using lt 3 by (rule heard_step)
      show ?thesis
        unfolding step c using Cons.IH [OF v(1)] v(2) by simp
    qed
  qed
qed

lemma dispatch_later: "later s (dispatch env e s)"
proof -
  have "run True {} s (dispatch env e s)"
    by (rule run_dispatch [OF _ _ run_refl]) simp_all
  then show ?thesis by (rule run_later)
qed

lemma await_keeps:
  assumes "await env p s evs = (r, s', evs')" and "outcome_of s w = Some x"
  shows "outcome_of s' w = Some x"
  using await_later [OF assms(1)] assms(2) by (rule later_outcome)

text \<open>While another promise is awaited, the wait hears the same events.\<close>

lemma await_other_heard:
  assumes "hearing s w m" and "await env p s evs = (r, s', evs')"
  shows "outcome_of s' w = Some (heard m (timer_of s w) evs)
       \<or> (hearing s' w m \<and> heard m (timer_of s' w) evs' = heard m (timer_of s w) evs)"
  using assms
proof (induction evs arbitrary: s)
  case Nil
  show ?case
  proof (cases "outcome_of s p")
    case (Some a)
    then have "s' = s" "evs' = []" using Nil.prems(2) by simp_all
    then show ?thesis using Nil.prems(1) by simp
  next
    case None
    then have s': "s' = advance env (timer_of s p) s" and e: "evs' = []"
      using Nil.prems(2) by (simp_all add: Let_def)
    show ?thesis
    proof (cases "timer_of s w \<le> timer_of s p")
      case True
      have "outcome_of s' w = Some (Inl (ErrV TimedOut))"
        unfolding s' using Nil.prems(1) True by (rule hearing_timeout)
      then show ?thesis by simp
    next
      case False
      then have "hearing s' w m"
        unfolding s' using hearing_advance(1) [OF Nil.prems(1)] by simp
      then show ?thesis using e by simp
    qed
  qed
next
  case (Cons x evs)
  obtain dt e where x: "x = (dt, e)" by (cases x)
  show ?case
  proof (cases "outcome_of s p")
    case (Some a)
    then have "s' = s" "evs' = x # evs" using Cons.prems(2) by (simp_all add: x)
    then show ?thesis using Cons.prems(1) by simp
  next
    case None
    show ?thesis
    proof (cases "timer_of s p \<le> dt")
      case True
      then have s': "s' = advance env (timer_of s p) s"
        and e: "evs' = (dt - timer_of s p, e) # evs"
        using Cons.prems(2) None by (simp_all add: x Let_def)
      show ?thesis
      proof (cases "timer_of s w \<le> timer_of s p")
        case le: True
        have "outcome_of s' w = Some (Inl (ErrV TimedOut))"
          unfolding s' using Cons.prems(1) le by (rule hearing_timeout)
        moreover have "heard m (timer_of s w) (x # evs) = Inl (ErrV TimedOut)"
          using le True by (simp add: x)
        ultimately show ?thesis by simp
      next
        case gt: False
        then have lt: "timer_of s p < timer_of s w" by simp
        have h: "hearing s' w m" and t: "timer_of s' w = timer_of s w - timer_of s p"
          unfolding s' using hearing_advance [OF Cons.prems(1) lt] by simp_all
        have "heard m (timer_of s w - timer_of s p) ((dt - timer_of s p, e) # evs)
            = heard m (timer_of s w) ((dt, e) # evs)"
        proof (cases "timer_of s w \<le> dt")
          case True
          then have "timer_of s w - timer_of s p \<le> dt - timer_of s p" by simp
          then show ?thesis using True by simp
        next
          case False
          then have a: "\<not> timer_of s w - timer_of s p \<le> dt - timer_of s p"
            using True lt by simp
          have b: "timer_of s w - timer_of s p - (dt - timer_of s p) = timer_of s w - dt"
            using True lt by simp
          show ?thesis
            by (simp only: heard.simps b a False if_False)
        qed
        then show ?thesis using h t e by (simp add: x)
      qed
    next
      case False
      let ?u = "advance env dt s"
      have step: "await env p (dispatch env e ?u) evs = (r, s', evs')"
        using Cons.prems(2) None False by (simp add: x)
      show ?thesis
      proof (cases "timer_of s w \<le> dt")
        case True
        have "outcome_of ?u w = Some (Inl (ErrV TimedOut))"
          using Cons.prems(1) True by (rule hearing_timeout)
        then have "outcome_of (dispatch env e ?u) w = Some (Inl (ErrV TimedOut))"
          using dispatch_later by (rule later_outcome [rotated])
        then have "outcome_of s' w = Some (Inl (ErrV TimedOut))"
          using step by (rule await_keeps [rotated])
        moreover have "heard m (timer_of s w) (x # evs) = Inl (ErrV TimedOut)"
          using True by (simp add: x)
        ultimately show ?thesis by simp
      next
        case gt: False
        then have lt: "dt < timer_of s w" by simp
        have u: "hearing ?u w m" "timer_of ?u w = timer_of s w - dt"
          using hearing_advance [OF Cons.prems(1) lt] by simp_all
        consider v where "e = Emit (''TAG:'' @ m) v" | v where "e = Emit ''close'' v"
          | "\<forall>v. e \<noteq> Emit (''TAG:'' @ m) v" "\<forall>v. e \<noteq> Emit ''close'' v"
          by blast
        then show ?thesis
        proof cases
          case 1
          have "outcome_of (dispatch env e ?u) w = Some (Inr v)"
            unfolding 1 using u(1) by (rule hearing_tag)
          then have "outcome_of s' w = Some (Inr v)"
            using step by (rule await_keeps [rotated])
          moreover have "heard m (timer_of s w) (x # evs) = Inr v"
            using gt by (simp add: x 1)
          ultimately show ?thesis by simp
        next
          case 2
          have "outcome_of (dispatch env e ?u) w
              = Some (Inl (if truthy v then v else ErrV ConnectionClosed))"
            unfolding 2 using u(1) by (rule hearing_close)
          then have "outcome_of s' w = Some (Inl (if truthy v then v else ErrV ConnectionClosed))"
            using step by (rule await_keeps [rotated])
          moreover have "heard m (timer_of s w) (x # evs)
              = Inl (if truthy v then v else ErrV ConnectionClosed)"
            using gt by (simp add: x 2)
          ultimately show ?thesis by simp
        next
          case 3
          have v: "hearing (dispatch env e ?u) w m"
            "timer_of (dispatch env e ?u) w = timer_of s w - dt"
            using hearing_dispatch_other [OF u(1) 3] u(2) by simp_all
          have c: "heard m (timer_of s w) (x # evs) = heard m (timer_of s w - dt) evs"
            unfolding x using lt 3 by (rule heard_step)
          show ?thesis
            unfolding c using Cons.IH [OF v(1) step] v(2) by simp
        qed
      qed
    qed
  qed
qed

lemma query_await:
  assumes q: "query env node timeoutMs s evs = (r, node', s', evs')"
    and op: "isOpen s" and wf: "wf s" and enc: "encodeBinaryNode env (NodeV node') = Inr buff"
  obtains t sr s3 evs1 where
    "promises t = promises s @
       [\<lparr>kind = Tagged (msg_id node'),
         timer = (case timeoutMs of None \<Rightarrow> defaultQueryTimeoutMs env | Some t \<Rightarrow> t),
         outcome = None\<rparr>,
        \<lparr>kind = Write None, timer = connectTimeoutMs env, outcome = None\<rparr>]"
    "listeners t = listeners s @ [(''TAG:'' @ msg_id node', OnRecv (length (promises s))),
                                  (''close'', OnErr (length (promises s)))]"
    "await env (Suc (length (promises s))) t evs = (sr, s3, evs1)"
    "\<forall>e. sr = Inl e \<longrightarrow> r = Inl e"
    "\<forall>u. sr = Inr u \<longrightarrow>
         (\<exists>res. await env (length (promises s)) s3 evs1 = (res, s', evs') \<and> r = verdict env res)"
proof -
  define w where "w = length (promises s)"
  from q obtain s1 s2 sr s3 evs1 where
    s1: "s1 = (if no_id node then s\<lparr>epoch := js_succ (epoch s)\<rparr> else s)"
    and s2: "s2 = snd (waitForMessage_start env (msg_id node') timeoutMs s1)"
    and sn: "sendNode env (NodeV node') s2 evs = (sr, s3, evs1)"
    and a: "\<forall>e. sr = Inl e \<longrightarrow> r = Inl e \<and> s' = s3 \<and> evs' = evs1"
    and b: "\<forall>u. sr = Inr u \<longrightarrow>
       (\<exists>res. await env (length (promises s)) s3 evs1 = (res, s', evs') \<and> r = verdict env res)"
    using query_run [OF q] by (elim exE conjE) (rule that)
  have p1: "promises s1 = promises s" "listeners s1 = listeners s" "isOpen s1"
    using s1 op by simp_all
  have "(''error'', OnErr w) \<notin> set (listeners s)"
    using wf_listener [OF wf, of "(''error'', OnErr w)"] by (auto simp: w_def)
  then have rl: "remove_last (''error'', OnErr w)
      (listeners s @ [(''TAG:'' @ msg_id node', OnRecv w), (''close'', OnErr w)])
      = listeners s @ [(''TAG:'' @ msg_id node', OnRecv w), (''close'', OnErr w)]"
    by (intro remove_last_absent) simp
  have p2: "promises s2 = promises s @
       [\<lparr>kind = Tagged (msg_id node'),
         timer = (case timeoutMs of None \<Rightarrow> defaultQueryTimeoutMs env | Some t \<Rightarrow> t),
         outcome = None\<rparr>]"
    "listeners s2 = listeners s @ [(''TAG:'' @ msg_id node', OnRecv w), (''close'', OnErr w)]"
    "isOpen s2"
    unfolding s2 waitForMessage_start_eq using p1 rl by (simp_all add: w_def)
  define s2' where "s2' = s2\<lparr>log := log s2 @ trace_line env (NodeV node')\<rparr>"
  define t where "t = snd (sendRawMessage_start env buff None s2')"
  have o: "isOpen s2'" using p2(3) by (simp add: s2'_def)
  have st: "sendRawMessage_start env buff None s2' = (Inr (length (promises s2')), t)"
    unfolding t_def using sendRawMessage_start_open [OF o] by simp
  have len: "length (promises s2') = Suc w" using p2(1) by (simp add: s2'_def w_def)
  have aw: "await env (Suc w) t evs = (sr, s3, evs1)"
    using sn unfolding sendNode_eq enc by (simp add: sendRawMessage_def s2'_def [symmetric] st len)
  have pt: "promises t = promises s @
       [\<lparr>kind = Tagged (msg_id node'),
         timer = (case timeoutMs of None \<Rightarrow> defaultQueryTimeoutMs env | Some t \<Rightarrow> t),
         outcome = None\<rparr>,
        \<lparr>kind = Write None, timer = connectTimeoutMs env, outcome = None\<rparr>]"
    unfolding t_def sendRawMessage_start_open [OF o] using p2(1) by (simp add: s2'_def)
  have lt: "listeners t = listeners s @ [(''TAG:'' @ msg_id node', OnRecv w), (''close'', OnErr w)]"
    unfolding t_def sendRawMessage_start_open [OF o] using p2(2) by (simp add: s2'_def)
  show ?thesis
    using that [OF pt lt [unfolded w_def] aw [unfolded w_def] _ b] a by blast
qed

lemma query_heard:
  assumes q: "query env node timeoutMs s evs = (r, node', s', evs')"
    and op: "isOpen s" and wf: "wf s" and enc: "encodeBinaryNode env (NodeV node') = Inr buff"
  shows "r = (case write_result (completion (Suc (length (promises s))) (connectTimeoutMs env) evs) of
                Inl e \<Rightarrow> Inl e
              | Inr u \<Rightarrow> verdict env
                  (heard (msg_id node')
                     (case timeoutMs of None \<Rightarrow> defaultQueryTimeoutMs env | Some t \<Rightarrow> t) evs))"
proof -
  define w where "w = length (promises s)"
  define m where "m = msg_id node'"
  define T where "T = (case timeoutMs of None \<Rightarrow> defaultQueryTimeoutMs env | Some t \<Rightarrow> t)"
  obtain t sr s3 evs1 where
    pt: "promises t = promises s @
       [\<lparr>kind = Tagged m, timer = T, outcome = None\<rparr>,
        \<lparr>kind = Write None, timer = connectTimeoutMs env, outcome = None\<rparr>]"
    and lt: "listeners t = listeners s @ [(''TAG:'' @ m, OnRecv w), (''close'', OnErr w)]"
    and aw: "await env (Suc w) t evs = (sr, s3, evs1)"
    and a: "\<forall>e. sr = Inl e \<longrightarrow> r = Inl e"
    and b: "\<forall>u. sr = Inr u \<longrightarrow>
         (\<exists>res. await env w s3 evs1 = (res, s', evs') \<and> r = verdict env res)"
    unfolding w_def m_def T_def by (rule query_await [OF q op wf enc])
  have lw: "lookup t w = Some \<lparr>kind = Tagged m, timer = T, outcome = None\<rparr>"
    by (simp add: lookup_def pt w_def nth_append)
  have lp: "lookup t (Suc w) = Some \<lparr>kind = Write None, timer = connectTimeoutMs env, outcome = None\<rparr>"
    by (simp add: lookup_def pt w_def nth_append)
  have cat: "owner cb < w" if "catcher t j = Some cb" for j cb
  proof (cases "j < w")
    case True
    then have "catcher s j = Some cb"
      using that by (simp add: catcher_def lookup_def pt w_def nth_append)
    then show ?thesis using wf_catcher [OF wf] by (simp add: w_def)
  next
    case False
    then have "j = w \<or> j = Suc w \<or> Suc w < j" by auto
    then have "catcher t j = None"
      using lw lp by (auto simp: catcher_def) (simp add: lookup_def pt w_def)
    then show ?thesis using that by simp
  qed
  have own: "own w t = [(''TAG:'' @ m, OnRecv w), (''close'', OnErr w)]"
    using own_fresh [OF wf] by (simp add: own_def lt w_def)
  have h: "hearing t w m"
    using lw own cat by (fastforce simp: hearing_def pending_def kind_of_def)
  have "\<not> targeted t (Suc w)"
  proof
    assume "targeted t (Suc w)"
    then consider x where "x \<in> set (listeners t)" "owner (snd x) = Suc w"
      | j cb where "catcher t j = Some cb" "owner cb = Suc w"
      by (auto simp: targeted_def)
    then show False
    proof cases
      case 1
      then show False using wf_listener [OF wf, of x] by (auto simp: lt w_def)
    next
      case 2
      then show False using cat [of j cb] by simp
    qed
  qed
  then have l: "lonely t (Suc w)"
    using lp by (simp add: lonely_def pending_def kind_of_def)
  have tw: "timer_of t w = T" and tp: "timer_of t (Suc w) = connectTimeoutMs env"
    using lw lp by (simp_all add: timer_of_def)
  have sr: "sr = write_result (completion (Suc w) (connectTimeoutMs env) evs)"
    using await_write [OF l, of env evs] aw tp by simp
  show ?thesis
  proof (cases sr)
    case (Inl e)
    then show ?thesis using a sr by (simp add: w_def)
  next
    case (Inr u)
    then obtain res where res: "await env w s3 evs1 = (res, s', evs')" "r = verdict env res"
      using b by blast
    have "res = heard m T evs"
      using await_other_heard [OF h aw]
    proof
      assume "outcome_of s3 w = Some (heard m (timer_of t w) evs)"
      then show ?thesis using res(1) tw by (simp add: await_settled)
    next
      assume "hearing s3 w m \<and> heard m (timer_of s3 w) evs1 = heard m (timer_of t w) evs"
      then show ?thesis using await_heard [of s3 w m env evs1] res(1) tw by simp
    qed
    then show ?thesis using res(2) Inr sr by (simp add: w_def m_def T_def)
  qed
qed

text \<open>
  C2. \<^verbatim>\<open>query\<close> follows these steps. A node without an identifier gets a freshly
  generated tag (and the counter moves on); the wait for the tag is begun first: its
  registrations are the first thing \<^verbatim>\<open>query\<close> adds to the trace; then the node is sent:
  when the transport is open and the codec encodes the node, the frame is encoded and
  sent right after the registrations, and nothing follows but the deregistrations.
  The send is awaited, and a failed send fails the call with its error. After a
  successful send the wait is awaited: a rejected wait fails the call with its error,
  a node that the codec holds to be a server error fails the call with the
  ProtocolError of that node's code and text, and any other node is returned. A value is
  returned as success only if the send succeeded and the wait resolved to that value,
  and never if it is a node the server flagged as an error.
  The wait is begun with the caller's \<^verbatim>\<open>timeoutMs\<close> (\<^verbatim>\<open>defaultQueryTimeoutMs\<close> when the
  caller passes none), counted from before the send: on an open transport and for a
  node the codec encodes, the result is the error of the send if the write fails or is
  not answered within \<^verbatim>\<open>connectTimeoutMs\<close>, and otherwise what the wait hears for the
  node's identifier within \<^verbatim>\<open>timeoutMs\<close> milliseconds of the call, passed through the
  error check.
\<close>

theorem query_steps:
  assumes "query env node timeoutMs s evs = (r, node', s', evs')"
  shows "(let w = length (promises s);
              regs = [On (''TAG:'' @ msg_id node') (OnRecv w), On ''close'' (OnErr w),
                      Off ''error'' (OnErr w)];
              tr = trace_line env (NodeV node')
          in node' = (if no_id node then set_id (uqTagId env @ dec (epoch s)) node else node)
           \<and> epoch s' = (if no_id node then js_succ (epoch s) else epoch s)
           \<and> (\<exists>rest. log s' = log s @ regs @ rest \<and>
                 (\<forall>buff. isOpen s \<and> encodeBinaryNode env (NodeV node') = Inr buff \<longrightarrow>
                    (\<exists>offs. rest = tr @ [EncodeFrame buff,
                                         Send (encodeFrame env (log s @ regs @ tr) buff)] @ offs
                            \<and> list_all is_Off offs)))
           \<and> (\<forall>buff. isOpen s \<and> encodeBinaryNode env (NodeV node') = Inr buff \<longrightarrow>
                 outcome_of s' (Suc w) \<noteq> None)
           \<and> (\<forall>e. outcome_of s' (Suc w) = Some (Inl e) \<longrightarrow> r = Inl e)
           \<and> (\<forall>u. outcome_of s' (Suc w) = Some (Inr u) \<longrightarrow>
                 outcome_of s' w \<noteq> None
                 \<and> (\<forall>e. outcome_of s' w = Some (Inl e) \<longrightarrow> r = Inl e)
                 \<and> (\<forall>n code text. outcome_of s' w = Some (Inr (NodeV n))
                        \<and> serverError env n = Some (code, text) \<longrightarrow>
                        r = Inl (ErrV (ProtocolError code text)))
                 \<and> (\<forall>n. outcome_of s' w = Some (Inr (NodeV n)) \<and> serverError env n = None \<longrightarrow>
                        r = Inr (NodeV n)))
           \<and> (\<forall>v. r = Inr v \<longrightarrow>
                 outcome_of s' w = Some (Inr v) \<and> (\<exists>u. outcome_of s' (Suc w) = Some (Inr u))
                 \<and> (\<forall>n. v = NodeV n \<longrightarrow> serverError env n = None))
           \<and> (isOpen s \<and> wf s \<longrightarrow>
                 (\<forall>buff. encodeBinaryNode env (NodeV node') = Inr buff \<longrightarrow>
                    r = (case write_result (completion (Suc w) (connectTimeoutMs env) evs) of
                           Inl e \<Rightarrow> Inl e
                         | Inr u \<Rightarrow> verdict env
                             (heard (msg_id node')
                                (case timeoutMs of None \<Rightarrow> defaultQueryTimeoutMs env
                                 | Some t \<Rightarrow> t) evs)))))"
proof -
  define w where "w = length (promises s)"
  define regs where "regs = [On (''TAG:'' @ msg_id node') (OnRecv w), On ''close'' (OnErr w),
                      Off ''error'' (OnErr w)]"
  define tr where "tr = trace_line env (NodeV node')"
  from assms obtain s1 s2 sr s3 evs1 where
    n: "node' = (if no_id node then set_id (uqTagId env @ dec (epoch s)) node else node)"
    and s1: "s1 = (if no_id node then s\<lparr>epoch := js_succ (epoch s)\<rparr> else s)"
    and s2: "s2 = snd (waitForMessage_start env (msg_id node') timeoutMs s1)"
    and sn: "sendNode env (NodeV node') s2 evs = (sr, s3, evs1)"
    and a: "\<forall>e. sr = Inl e \<longrightarrow> r = Inl e \<and> s' = s3 \<and> evs' = evs1"
    and b: "\<forall>u. sr = Inr u \<longrightarrow>
       (\<exists>res. await env (length (promises s)) s3 evs1 = (res, s', evs') \<and> r = verdict env res)"
    using query_run [OF assms] by (elim exE conjE) (rule that)
  have hd: "isOpen s \<and> wf s \<longrightarrow>
                 (\<forall>buff. encodeBinaryNode env (NodeV node') = Inr buff \<longrightarrow>
                    r = (case write_result (completion (Suc w) (connectTimeoutMs env) evs) of
                           Inl e \<Rightarrow> Inl e
                         | Inr u \<Rightarrow> verdict env
                             (heard (msg_id node')
                                (case timeoutMs of None \<Rightarrow> defaultQueryTimeoutMs env
                                 | Some t \<Rightarrow> t) evs)))"
    unfolding w_def using query_heard [OF assms] by blast
  have p1: "promises s1 = promises s" "isOpen s1 = isOpen s" "log s1 = log s"
    "epoch s1 = (if no_id node then js_succ (epoch s) else epoch s)"
    unfolding s1 by simp_all
  have f2: "length (promises s2) = Suc w" "isOpen s2 = isOpen s" "log s2 = log s @ regs"
    "epoch s2 = epoch s1" "outcome_of s2 w = None"
    unfolding s2 regs_def w_def
    by (simp_all add: waitForMessage_start_eq p1 outcome_of_def lookup_def)
  note sf = sendNode_facts [OF sn]
  have e3: "epoch s3 = epoch s1" using sf(3) f2 by simp
  have g3: "grows s2 (tr @ (case encodeBinaryNode env (NodeV node') of
              Inl e \<Rightarrow> []
            | Inr buff \<Rightarrow> send_trace env buff (s2\<lparr>log := log s2 @ tr\<rparr>))) s3"
    using sf(1) unfolding tr_def .
  have sent: "outcome_of s3 (Suc w) = Some sr \<and> length (promises s3) = Suc (Suc w)"
    if "isOpen s" "encodeBinaryNode env (NodeV node') = Inr buff" for buff
    using sf(5) [of buff] that f2 by simp
  have unsent: "(\<exists>e. sr = Inl e) \<and> length (promises s3) = Suc w"
    if "\<not> isOpen s \<or> (\<exists>e. encodeBinaryNode env (NodeV node') = Inl e)"
    using sf(4) that f2 by simp
  have ok: "isOpen s \<and> (\<exists>buff. encodeBinaryNode env (NodeV node') = Inr buff)" if "sr = Inr u" for u
    using unsent that by (cases "encodeBinaryNode env (NodeV node')") auto
  have c1: "epoch s3 = (if no_id node then js_succ (epoch s) else epoch s)"
    using e3 p1 by simp
  have lg3: "\<exists>rest. log s3 = log s @ regs @ rest \<and>
                 (\<forall>buff. isOpen s \<and> encodeBinaryNode env (NodeV node') = Inr buff \<longrightarrow>
                    (\<exists>offs. rest = tr @ [EncodeFrame buff,
                                         Send (encodeFrame env (log s @ regs @ tr) buff)] @ offs
                            \<and> list_all is_Off offs))"
  proof (cases "encodeBinaryNode env (NodeV node')")
    case (Inl e)
    then show ?thesis using g3 f2 unfolding grows_def by auto
  next
    case (Inr buff)
    then obtain offs where "log s3 = log s @ regs @ tr @ send_trace env buff (s2\<lparr>log := log s2 @ tr\<rparr>) @ offs"
      and "list_all is_Off offs"
      using g3 f2 unfolding grows_def by auto
    then show ?thesis using Inr f2 by (auto simp: send_trace_def)
  qed
  have ext: "\<exists>rest. log t = log s @ regs @ rest \<and>
                 (\<forall>buff. isOpen s \<and> encodeBinaryNode env (NodeV node') = Inr buff \<longrightarrow>
                    (\<exists>offs. rest = tr @ [EncodeFrame buff,
                                         Send (encodeFrame env (log s @ regs @ tr) buff)] @ offs
                            \<and> list_all is_Off offs))"
    if "grows s3 [] t" "isOpen s \<and> (\<exists>buff. encodeBinaryNode env (NodeV node') = Inr buff)" for t
  proof -
    from that obtain buff where enc: "encodeBinaryNode env (NodeV node') = Inr buff" by blast
    from lg3 enc that obtain rest offs where l3: "log s3 = log s @ regs @ rest"
      and rest: "rest = tr @ [EncodeFrame buff, Send (encodeFrame env (log s @ regs @ tr) buff)] @ offs"
      and offs: "list_all is_Off offs" by blast
    from that obtain offs' where lt: "log t = log s3 @ offs'" and offs': "list_all is_Off offs'"
      unfolding grows_def by auto
    have l: "log t = log s @ regs @ (rest @ offs')" using lt l3 by simp
    have r: "rest @ offs' = tr @ [EncodeFrame buff,
        Send (encodeFrame env (log s @ regs @ tr) buff)] @ (offs @ offs')"
      using rest by simp
    have o: "list_all is_Off (offs @ offs')" using offs offs' by simp
    show ?thesis
    proof (rule exI [of _ "rest @ offs'"], intro conjI allI impI)
      show "log t = log s @ regs @ rest @ offs'" using l by simp
    next
      fix b
      assume "isOpen s \<and> encodeBinaryNode env (NodeV node') = Inr b"
      then have "b = buff" using enc by simp
      then show "\<exists>offs. rest @ offs' = tr @ [EncodeFrame b,
          Send (encodeFrame env (log s @ regs @ tr) b)] @ offs \<and> list_all is_Off offs"
        using r o by (intro exI [of _ "offs @ offs'"]) simp_all
    qed
  qed
  show ?thesis
  proof (cases sr)
    case (Inl e)
    then have fin: "r = Inl e" "s' = s3" using a by simp_all
    have o2: "outcome_of s3 (Suc w) = Some sr \<or> outcome_of s3 (Suc w) = None"
    proof (cases "isOpen s \<and> (\<exists>buff. encodeBinaryNode env (NodeV node') = Inr buff)")
      case True
      then show ?thesis using sent by auto
    next
      case False
      then have "length (promises s3) = Suc w"
        using unsent by (cases "encodeBinaryNode env (NodeV node')") auto
      then show ?thesis by (simp add: outcome_beyond)
    qed
    have d1: "\<forall>buff. isOpen s \<and> encodeBinaryNode env (NodeV node') = Inr buff \<longrightarrow>
                 outcome_of s3 (Suc w) \<noteq> None"
      using sent by auto
    have d2: "\<forall>e'. outcome_of s3 (Suc w) = Some (Inl e') \<longrightarrow> r = Inl e'"
      using o2 Inl fin by auto
    have d3: "\<forall>u. outcome_of s3 (Suc w) \<noteq> Some (Inr u)"
      using o2 Inl by auto
    have d4: "\<forall>v. r \<noteq> Inr v" using fin by simp
    show ?thesis
      unfolding Let_def w_def [symmetric] regs_def [symmetric] tr_def [symmetric] fin(2)
      apply (intro conjI)
             apply (rule n)
            apply (rule c1)
           apply (rule lg3)
          apply (rule d1)
         apply (rule d2)
        apply (simp add: d3)
       apply (simp add: d4)
      apply (rule hd)
      done
  next
    case (Inr u)
    then obtain res where aw: "await env w s3 evs1 = (res, s', evs')" and r: "r = verdict env res"
      using b w_def by blast
    from ok [OF Inr] obtain buff where op: "isOpen s" and enc: "encodeBinaryNode env (NodeV node') = Inr buff"
      by blast
    have s3: "outcome_of s3 (Suc w) = Some (Inr u)" "length (promises s3) = Suc (Suc w)"
      using sent [OF op enc] Inr by simp_all
    have lt: "later s3 s'" using aw by (rule await_later)
    have ow: "outcome_of s' w = Some res"
      using await_result [OF aw] s3 by simp
    have os: "outcome_of s' (Suc w) = Some (Inr u)"
      using lt s3 later_outcome by blast
    have ep: "epoch s' = (if no_id node then js_succ (epoch s) else epoch s)"
      using lt c1 by (simp add: later_def)
    have "grows s3 [] s'" using lt by (rule later_grows)
    then have lg: "\<exists>rest. log s' = log s @ regs @ rest \<and>
                 (\<forall>buff. isOpen s \<and> encodeBinaryNode env (NodeV node') = Inr buff \<longrightarrow>
                    (\<exists>offs. rest = tr @ [EncodeFrame buff,
                                         Send (encodeFrame env (log s @ regs @ tr) buff)] @ offs
                            \<and> list_all is_Off offs))"
      using ext op enc by blast
    have d1: "\<forall>buff. isOpen s \<and> encodeBinaryNode env (NodeV node') = Inr buff \<longrightarrow>
                 outcome_of s' (Suc w) \<noteq> None"
      using os by simp
    have d2: "\<forall>e'. outcome_of s' (Suc w) = Some (Inl e') \<longrightarrow> r = Inl e'"
      using os by simp
    have d3: "\<forall>u. outcome_of s' (Suc w) = Some (Inr u) \<longrightarrow>
                 outcome_of s' w \<noteq> None
                 \<and> (\<forall>e. outcome_of s' w = Some (Inl e) \<longrightarrow> r = Inl e)
                 \<and> (\<forall>n code text. outcome_of s' w = Some (Inr (NodeV n))
                        \<and> serverError env n = Some (code, text) \<longrightarrow>
                        r = Inl (ErrV (ProtocolError code text)))
                 \<and> (\<forall>n. outcome_of s' w = Some (Inr (NodeV n)) \<and> serverError env n = None \<longrightarrow>
                        r = Inr (NodeV n))"
      unfolding ow r verdict_def by simp
    have d4: "\<forall>v. r = Inr v \<longrightarrow>
                 outcome_of s' w = Some (Inr v) \<and> (\<exists>u. outcome_of s' (Suc w) = Some (Inr u))
                 \<and> (\<forall>n. v = NodeV n \<longrightarrow> serverError env n = None)"
      unfolding ow os r verdict_def
      by (auto split: sum.splits jsval.splits option.splits)
    show ?thesis
      unfolding Let_def w_def [symmetric] regs_def [symmetric] tr_def [symmetric]
      apply (intro conjI)
             apply (rule n)
            apply (rule ep)
           apply (rule lg)
          apply (rule d1)
         apply (rule d2)
        apply (rule d3)
       apply (rule d4)
      apply (rule hd)
      done
  qed
qed

theorem query_steps_witness:
  "isOpen opened \<and> wf opened
   \<and> fst (query example_env example_node (Some 10) opened
       [(5, WriteDone 1 None), (7, Emit ''TAG:12.34-1'' (NodeV (BinaryNode ''iq'' [] None)))])
     = Inl (ErrV TimedOut)
   \<and> fst (query example_env example_node (Some 10) opened
       [(5, WriteDone 1 None), (4, Emit ''TAG:12.34-1'' (NodeV (BinaryNode ''iq'' [] None)))])
     = Inr (NodeV (BinaryNode ''iq'' [] None))
   \<and> fst (query example_env example_node None opened
       [(5, WriteDone 1 None), (7, Emit ''TAG:12.34-1'' (NodeV (BinaryNode ''error'' [] None)))])
     = Inl (ErrV (ProtocolError ''500'' ''boom''))
   \<and> fst (query example_env example_node None opened
       [(5, WriteDone 1 (Some (ErrV (Failure ''write'')))),
        (7, Emit ''TAG:12.34-1'' (NodeV (BinaryNode ''iq'' [] None)))])
     = Inl (ErrV (Failure ''write''))
   \<and> fst (snd (query example_env example_node None opened
       [(5, WriteDone 1 None), (7, Emit ''TAG:12.34-1'' (NodeV (BinaryNode ''error'' [] None)))]))
     = BinaryNode ''iq'' [(''type'', ''get''), (''id'', ''12.34-1'')] None"
proof -
  have o: "isOpen opened" by (simp add: opened_def)
  have n: "no_id example_node" by (simp add: example_node_def no_id_def)
  have c: "length (promises opened) = 0" "epoch opened = Suc 0"
    "uqTagId example_env = ''12.34-''" "connectTimeoutMs example_env = 20000"
    "defaultQueryTimeoutMs example_env = 60000"
    by (simp_all add: opened_def initial_def example_env_def)
  have i: "set_id ''12.34-1'' example_node
      = BinaryNode ''iq'' [(''type'', ''get''), (''id'', ''12.34-1'')] None"
    by (simp add: set_id_def example_node_def)
  have m: "msg_id (BinaryNode ''iq'' [(''type'', ''get''), (''id'', ''12.34-1'')] None) = ''12.34-1''"
    by (simp add: msg_id_def)
  have e: "encodeBinaryNode example_env
      (NodeV (BinaryNode ''iq'' [(''type'', ''get''), (''id'', ''12.34-1'')] None)) = Inr [7]"
    by (simp add: example_env_def)
  have v: "verdict example_env (Inl x) = Inl x"
    "verdict example_env (Inr (NodeV (BinaryNode ''iq'' [] None)))
       = Inr (NodeV (BinaryNode ''iq'' [] None))"
    "verdict example_env (Inr (NodeV (BinaryNode ''error'' [] None)))
       = Inl (ErrV (ProtocolError ''500'' ''boom''))" for x
    by (simp_all add: verdict_def example_env_def)
  have t: "fst (snd (query example_env example_node tmo opened evs))
        = BinaryNode ''iq'' [(''type'', ''get''), (''id'', ''12.34-1'')] None
      \<and> fst (query example_env example_node tmo opened evs)
        = (case write_result (completion 1 20000 evs) of
             Inl e \<Rightarrow> Inl e
           | Inr u \<Rightarrow> verdict example_env
               (heard ''12.34-1'' (case tmo of None \<Rightarrow> 60000 | Some t \<Rightarrow> t) evs))" for tmo evs
  proof -
    obtain r node' s' evs' where q: "query example_env example_node tmo opened evs = (r, node', s', evs')"
      by (cases "query example_env example_node tmo opened evs") auto
    note s = query_steps [OF q, unfolded Let_def c]
    have a: "node' = BinaryNode ''iq'' [(''type'', ''get''), (''id'', ''12.34-1'')] None"
      using s [THEN conjunct1] n by (simp add: dec_digits i)
    have "r = (case write_result (completion 1 20000 evs) of
             Inl e \<Rightarrow> Inl e
           | Inr u \<Rightarrow> verdict example_env
               (heard ''12.34-1'' (case tmo of None \<Rightarrow> 60000 | Some t \<Rightarrow> t) evs))"
      using s [THEN conjunct2, THEN conjunct2, THEN conjunct2, THEN conjunct2, THEN conjunct2,
          THEN conjunct2, THEN conjunct2, THEN mp, OF conjI [OF o wf_opened], THEN spec,
          THEN mp, of "[7]"] e
      unfolding a m by simp
    then show ?thesis using a by (simp add: q)
  qed
  show ?thesis
    using o wf_opened by (simp add: t v)
qed

end
